theory Spec2Isabelle
  imports Main "HOL-Library.Word"
begin

unbundle bit_operations_syntax

section \<open>Machine types and faults\<close>

text \<open>
  The firmware runs on an 8-bit AVR: \<open>uint8_t\<close> is an 8-bit word, \<open>uint16_t\<close> and
  \<open>int\<close> are 16 bits wide. Arithmetic on words wraps around, as the C does after its
  promotions and the final conversion to the type of the variable assigned.
\<close>

type_synonym u8 = "8 word"
type_synonym u16 = "16 word"

text \<open>
  C has no exceptions; the two operations of \<open>midifighterpro.c\<close> that are undefined
  behaviour on some operands are results of their own here: a write or read of
  \<open>g_midi_note_state\<close> past the end of the array, and the division in \<open>remap\<close>
  when \<open>to = from\<close>. A function that can run into one returns \<open>fault + 'a\<close>, and
  nothing is said about the machine after a fault.
\<close>

datatype fault = NoteStateOutOfBounds nat | DivisionByZero

section \<open>remap (lines 56-79)\<close>

text \<open>
  \<open>numer\<close> is computed in \<open>int\<close> and stored in a \<open>uint16_t\<close>, \<open>denom\<close> likewise;
  the quotient is added to \<open>lo\<close> in 16 bits and the sum cut to \<open>uint8_t\<close>.
\<close>

definition remap :: "u8 \<Rightarrow> u8 \<Rightarrow> u8 \<Rightarrow> u8 \<Rightarrow> u8 \<Rightarrow> fault + u8" where
  "remap value from to lo hi =
     (if value < from then Inr lo
      else if value > to then Inr hi
      else
        let numer = (ucast value - ucast from) * (ucast hi - ucast lo) :: u16;
            denom = (ucast to - ucast from) :: u16
        in if denom = 0 then Inl DivisionByZero
           else Inr (ucast (ucast lo + numer div denom)))"

text \<open>The same interpolation on natural numbers, for stating what \<open>remap\<close> computes.\<close>

definition remap_nat :: "nat \<Rightarrow> nat \<Rightarrow> nat \<Rightarrow> nat \<Rightarrow> nat \<Rightarrow> nat" where
  "remap_nat v f t lo hi = lo + ((v - f) * (hi - lo)) div (t - f)"

section \<open>Data of the task\<close>

text \<open>
  LUFA's \<open>MIDI_EventPacket_t\<close>: two 4-bit fields and three data bytes. The type is
  declared in the LUFA library, outside this repository.
\<close>

record MIDI_EventPacket_t =
  CableNumber :: "4 word"
  Command :: "4 word"
  Data1 :: u8
  Data2 :: u8
  Data3 :: u8

text \<open>
  The calls the task makes into the outbound MIDI driver (\<open>midi.h\<close>), in the order made:
  \<open>midi_stream_note(pitch, onoff)\<close>, \<open>midi_stream_cc(cc, value)\<close>,
  \<open>midi_stream_raw_cc(channel, cc, value)\<close> and \<open>MIDI_Device_Flush\<close>.
\<close>

datatype midi_call =
    Stream_note u8 bool
  | Stream_cc u8 u8
  | Stream_raw_cc u8 u8 u8
  | Device_Flush

text \<open>
  Modelled from the spec: the macros \<open>SYSEX_READ(n)\<close> and \<open>SYSEX_END()\<close> of \<open>sysex.h\<close>
  are not in the source file; the spec says each payload byte is forwarded to the SysEx
  reader and the terminal command signals the end of the message.
\<close>

datatype sysex_call = Sysex_read u8 | Sysex_end

text \<open>
  Modelled from the spec: the enumerations of \<open>config.h\<close>, \<open>key.h\<close> and \<open>combo.h\<close>.
  The source file names \<open>TRAKTOR\<close>, \<open>ABLETON\<close>, the three Fourbanks modes and the ten
  combo actions; the spec gives the remaining device mode and the "none" action.
\<close>

datatype device_mode = DEFAULT_MODE | TRAKTOR | ABLETON

datatype fourbanks_mode = FOURBANKS_OFF | FOURBANKS_INTERNAL | FOURBANKS_EXTERNAL

datatype combo_action_t =
    COMBO_NONE
  | COMBO_A_DOWN | COMBO_A_RELEASE
  | COMBO_B_DOWN | COMBO_B_RELEASE
  | COMBO_C_DOWN | COMBO_C_RELEASE
  | COMBO_D_DOWN | COMBO_D_RELEASE
  | COMBO_E_DOWN | COMBO_E_RELEASE

text \<open>
  What the build fixes: the four \<open>INVERT_SLIDER_n\<close> switches of the preprocessor, and
  the constant and the three mapping functions of \<open>midi.h\<close> that the task calls but this
  file does not define. The mapping functions read the Fourbanks mode and the selected
  bank, which they get as arguments here.
\<close>

record firmware =
  INVERT_SLIDER_1 :: bool
  INVERT_SLIDER_2 :: bool
  INVERT_SLIDER_3 :: bool
  INVERT_SLIDER_4 :: bool
  MIDI_BASE_NOTE :: u8
  midi_fourbanks_key_to_note :: "fourbanks_mode \<Rightarrow> u8 \<Rightarrow> u8 \<Rightarrow> u8"
  midi_note_to_key :: "u8 \<Rightarrow> u8"
  midi_fourbanks_note_to_key :: "fourbanks_mode \<Rightarrow> u8 \<Rightarrow> u8 \<Rightarrow> u8"

text \<open>The configuration globals the task only reads.\<close>

record settings =
  g_midi_channel :: u8
  g_midi_velocity :: u8
  g_device_mode :: device_mode
  g_key_fourbanks_mode :: fourbanks_mode
  g_rotate_enable :: bool
  g_combos_enable :: bool
  g_led_keypress_enable :: bool
  g_exp_led_keypress_enable :: bool

text \<open>
  What the drivers hand to one run of the task: the USB device state, the packets
  \<open>MIDI_Device_ReceiveEventPacket\<close> delivers until it returns false, the expansion
  key variables after \<open>exp_key_read(); exp_key_calc()\<close>, the value of the k-th call
  \<open>exp_adc_read(i)\<close> as \<open>exp_adc_read k i\<close>, the key variables after
  \<open>key_read(); key_calc()\<close>, and the action \<open>combo_recognize\<close> returns.
\<close>

record tick_inputs =
  USB_configured :: bool
  rx_packets :: "MIDI_EventPacket_t list"
  g_exp_key_down :: u8
  g_exp_key_up :: u8
  g_exp_key_state :: u8
  exp_adc_read :: "nat \<Rightarrow> nat \<Rightarrow> u16"
  g_key_down :: u16
  g_key_up :: u16
  g_key_state :: u16
  combo_action :: combo_action_t

text \<open>
  The state the task changes. An array is a function from the index; its cells are the
  indices below its size, and every access checks the index where the source can pass
  one that is too large. The calls into the MIDI and SysEx drivers are logged in order;
  the LED drivers keep the last value set.
\<close>

record globals =
  main_watchdog_flag :: bool
  g_midi_note_state :: "nat \<Rightarrow> u8"
  g_led_groundfx_counter :: u8
  g_exp_analog_prev :: "nat \<Rightarrow> u16"
  second_cc_value :: u8
  g_key_bank_selected :: u8
  midi_out :: "midi_call list"
  sysex_in :: "sysex_call list"
  led_state :: u16
  exp_key_led :: u8
  led_groundfx :: bool
  DDRD :: u8
  PORTD :: u8

text \<open>
  Modelled from the spec: the sizes of the two arrays are declared in \<open>midi.h\<close> and
  \<open>expansion.h\<close>; the spec gives a 128-entry ledger and 4 analog channels.
\<close>

abbreviation (input) MIDI_MAX_NOTES :: nat where "MIDI_MAX_NOTES \<equiv> 128"
abbreviation (input) NUM_ANALOG :: nat where "NUM_ANALOG \<equiv> 4"

definition midi_stream_note :: "u8 \<Rightarrow> bool \<Rightarrow> globals \<Rightarrow> globals" where
  "midi_stream_note pitch onoff s = s\<lparr>midi_out := midi_out s @ [Stream_note pitch onoff]\<rparr>"

definition midi_stream_cc :: "u8 \<Rightarrow> u8 \<Rightarrow> globals \<Rightarrow> globals" where
  "midi_stream_cc cc v s = s\<lparr>midi_out := midi_out s @ [Stream_cc cc v]\<rparr>"

definition midi_stream_raw_cc :: "u8 \<Rightarrow> u8 \<Rightarrow> u8 \<Rightarrow> globals \<Rightarrow> globals" where
  "midi_stream_raw_cc channel cc v s = s\<lparr>midi_out := midi_out s @ [Stream_raw_cc channel cc v]\<rparr>"

definition sysex_calls :: "sysex_call list \<Rightarrow> globals \<Rightarrow> globals" where
  "sysex_calls cs s = s\<lparr>sysex_in := sysex_in s @ cs\<rparr>"

text \<open>\<open>g_midi_note_state[note] = velocity\<close> and the read \<open>g_midi_note_state[i]\<close>.\<close>

definition note_state_write :: "u8 \<Rightarrow> u8 \<Rightarrow> globals \<Rightarrow> fault + globals" where
  "note_state_write note velocity s =
     (if unat note < MIDI_MAX_NOTES
      then Inr (s\<lparr>g_midi_note_state := (g_midi_note_state s)(unat note := velocity)\<rparr>)
      else Inl (NoteStateOutOfBounds (unat note)))"

definition note_state_read :: "nat \<Rightarrow> globals \<Rightarrow> fault + u8" where
  "note_state_read i s =
     (if i < MIDI_MAX_NOTES then Inr (g_midi_note_state s i)
      else Inl (NoteStateOutOfBounds i))"

section \<open>Inbound MIDI (lines 301-392)\<close>

definition input_event_task :: "settings \<Rightarrow> MIDI_EventPacket_t \<Rightarrow> globals \<Rightarrow> fault + globals" where
  "input_event_task cfg input_event s =
     (if Command input_event = 0xF then
        (if Data1 input_event = 0xF8
           then Inr (s\<lparr>g_led_groundfx_counter := g_led_groundfx_counter s + 1\<rparr>)
         else if Data1 input_event = 0xFA
           then Inr (s\<lparr>g_led_groundfx_counter := 0\<rparr>)
         else if Data1 input_event = 0xFC
           then Inr (s\<lparr>g_led_groundfx_counter := 0\<rparr>)
         else Inr s)
      else if Command input_event = 0x4 then
        Inr (sysex_calls [Sysex_read (Data1 input_event), Sysex_read (Data2 input_event),
                          Sysex_read (Data3 input_event)] s)
      else if Command input_event = 0x5 then
        Inr (sysex_calls [Sysex_read (Data1 input_event), Sysex_end] s)
      else if Command input_event = 0x6 then
        Inr (sysex_calls [Sysex_read (Data1 input_event), Sysex_read (Data2 input_event),
                          Sysex_end] s)
      else if Command input_event = 0x7 then
        Inr (sysex_calls [Sysex_read (Data1 input_event), Sysex_read (Data2 input_event),
                          Sysex_read (Data3 input_event), Sysex_end] s)
      else
        let channel = Data1 input_event AND 0x0f in
        if channel = g_midi_channel cfg then
          (if Command input_event = 0x9 then
             note_state_write (Data2 input_event) (Data3 input_event) s
           else if Command input_event = 0x8 then
             note_state_write (Data2 input_event) 0 s
           else Inr s)
        else Inr s)"

fun receive_loop :: "settings \<Rightarrow> MIDI_EventPacket_t list \<Rightarrow> globals \<Rightarrow> fault + globals" where
  "receive_loop cfg [] s = Inr s"
| "receive_loop cfg (input_event # rest) s =
     (case input_event_task cfg input_event s of
        Inl f \<Rightarrow> Inl f
      | Inr s' \<Rightarrow> receive_loop cfg rest s')"

section \<open>Digital expansion port (lines 395-419)\<close>

abbreviation (input) MIDI_DIGITAL_NOTE :: u8 where "MIDI_DIGITAL_NOTE \<equiv> 4"

text \<open>The body of the loop over the four pins; \<open>bit\<close> is \<open>0x01 << i\<close>.\<close>

definition exp_digital_key :: "tick_inputs \<Rightarrow> nat \<Rightarrow> globals \<Rightarrow> globals" where
  "exp_digital_key inp i s =
     (let bit = push_bit i 1 :: u8;
          s1 = (if g_exp_key_down inp AND bit \<noteq> 0
                then midi_stream_note (MIDI_DIGITAL_NOTE + of_nat i) True s else s);
          s2 = (if g_exp_key_up inp AND bit \<noteq> 0
                then midi_stream_note (MIDI_DIGITAL_NOTE + of_nat i) False s1 else s1)
      in s2)"

definition exp_digital_task :: "settings \<Rightarrow> tick_inputs \<Rightarrow> globals \<Rightarrow> globals" where
  "exp_digital_task cfg inp s =
     (if g_key_fourbanks_mode cfg \<noteq> FOURBANKS_EXTERNAL
      then fold (exp_digital_key inp) [0..<4] s
      else s)"

section \<open>Analog expansion port (lines 421-561)\<close>

text \<open>Four reads of each channel are summed in a \<open>uint16_t\<close> and shifted right by 2.\<close>

definition adc_read_average :: "tick_inputs \<Rightarrow> nat \<Rightarrow> u16" where
  "adc_read_average inp i =
     drop_bit 2 (fold (\<lambda>samples acc. acc + exp_adc_read inp samples i) [0..<4] 0)"

text \<open>Lines 447-461: \<open>adc_value[n] = 1024 - adc_value[n]\<close> for each slider compiled as inverted.\<close>

definition invert_sliders :: "firmware \<Rightarrow> settings \<Rightarrow> (nat \<Rightarrow> u16) \<Rightarrow> (nat \<Rightarrow> u16)" where
  "invert_sliders fw cfg adc_value =
     (if \<not> g_rotate_enable cfg then
        let a0 = (if INVERT_SLIDER_1 fw then adc_value(0 := 1024 - adc_value 0) else adc_value);
            a1 = (if INVERT_SLIDER_2 fw then a0(1 := 1024 - a0 1) else a0);
            a2 = (if INVERT_SLIDER_3 fw then a1(2 := 1024 - a1 2) else a1);
            a3 = (if INVERT_SLIDER_4 fw then a2(3 := 1024 - a2 3) else a2)
        in a3
      else adc_value)"

text \<open>Whether the build inverts the slider of channel \<open>i\<close> (\<open>INVERT_SLIDER_1\<close> is channel 0).\<close>

definition slider_inverted :: "firmware \<Rightarrow> nat \<Rightarrow> bool" where
  "slider_inverted fw i =
     (if i = 0 then INVERT_SLIDER_1 fw
      else if i = 1 then INVERT_SLIDER_2 fw
      else if i = 2 then INVERT_SLIDER_3 fw
      else if i = 3 then INVERT_SLIDER_4 fw
      else False)"

text \<open>
  Lines 468-476. \<open>difference\<close> is an \<open>int16_t\<close>; \<open>abs\<close> negates a negative \<open>int\<close> in
  16 bits, and the comparison with 8 is signed.
\<close>

definition abs_int16 :: "u16 \<Rightarrow> u16" where
  "abs_int16 x = (if sint x < 0 then - x else x)"

definition hysteresis :: "u16 \<Rightarrow> u16 \<Rightarrow> u16" where
  "hysteresis adc prev =
     (let difference = adc - prev
      in if sint (abs_int16 difference) < 8 then prev else adc)"

abbreviation (input) NOTEON_LOW :: u8 where "NOTEON_LOW \<equiv> 3"
abbreviation (input) NOTEON_HIGH :: u8 where "NOTEON_HIGH \<equiv> 127 - NOTEON_LOW"
abbreviation (input) MIDI_ANALOG_NOTE :: u8 where "MIDI_ANALOG_NOTE \<equiv> 100"
abbreviation (input) MIDI_ANALOG_CC :: u8 where "MIDI_ANALOG_CC \<equiv> 16"

definition cc_a :: "nat \<Rightarrow> u8" where "cc_a i = MIDI_ANALOG_CC + 2 * of_nat i"
definition cc_b :: "nat \<Rightarrow> u8" where "cc_b i = MIDI_ANALOG_CC + 2 * of_nat i + 1"
definition note_a :: "nat \<Rightarrow> u8" where "note_a i = MIDI_ANALOG_NOTE + 2 * of_nat i"
definition note_b :: "nat \<Rightarrow> u8" where "note_b i = MIDI_ANALOG_NOTE + 2 * of_nat i + 1"

text \<open>
  Lines 511-532: the CC events of a channel whose 7-bit value changed.
  \<open>second_cc_value\<close> is one \<open>static\<close> variable, shared by the four channels.
\<close>

definition analog_cc :: "settings \<Rightarrow> nat \<Rightarrow> u8 \<Rightarrow> globals \<Rightarrow> fault + globals" where
  "analog_cc cfg i value s =
     (if value \<ge> NOTEON_LOW \<and> value \<le> NOTEON_HIGH then
        case remap value NOTEON_LOW NOTEON_HIGH 0 127 of
          Inl f \<Rightarrow> Inl f
        | Inr v \<Rightarrow>
            let s1 = midi_stream_cc (cc_a i) v s in
            if g_device_mode cfg = TRAKTOR then
              if value \<ge> 64 then
                case remap value 64 NOTEON_HIGH 0 105 of
                  Inl f \<Rightarrow> Inl f
                | Inr v2 \<Rightarrow> Inr (midi_stream_cc (cc_b i) v2 (s1\<lparr>second_cc_value := v2\<rparr>))
              else if second_cc_value s1 > 0 then
                Inr (midi_stream_cc (cc_b i) 0 (s1\<lparr>second_cc_value := 0\<rparr>))
              else Inr s1
            else Inr s1
      else Inr s)"

text \<open>Lines 541-556: the note events at the two ends of the range.\<close>

definition analog_note :: "settings \<Rightarrow> nat \<Rightarrow> u8 \<Rightarrow> u8 \<Rightarrow> globals \<Rightarrow> fault + globals" where
  "analog_note cfg i value prev_value s =
     (if g_device_mode cfg = TRAKTOR then
        if value \<le> NOTEON_LOW \<and> prev_value > NOTEON_LOW then
          note_state_write (note_a i) (g_midi_velocity cfg) (midi_stream_note (note_a i) True s)
        else if value > NOTEON_LOW \<and> prev_value \<le> NOTEON_LOW then
          note_state_write (note_a i) 0 (midi_stream_note (note_a i) False s)
        else if value \<ge> NOTEON_HIGH \<and> prev_value < NOTEON_HIGH then
          note_state_write (note_b i) (g_midi_velocity cfg) (midi_stream_note (note_b i) True s)
        else if value < NOTEON_HIGH \<and> prev_value \<ge> NOTEON_HIGH then
          note_state_write (note_b i) 0 (midi_stream_note (note_b i) False s)
        else Inr s
      else Inr s)"

text \<open>
  The body of the loop of lines 479-561, for channel \<open>i\<close>. Lines 483-484 shift the
  10-bit value right by 3 and cut it to a \<open>uint8_t\<close>.
\<close>

definition cc_value_of_adc :: "u16 \<Rightarrow> u8" where
  "cc_value_of_adc adc = ucast (drop_bit 3 adc)"

definition analog_channel :: "settings \<Rightarrow> (nat \<Rightarrow> u16) \<Rightarrow> nat \<Rightarrow> globals \<Rightarrow> fault + globals" where
  "analog_channel cfg adc_value i s =
     (let value = cc_value_of_adc (adc_value i);
          prev_value = cc_value_of_adc (g_exp_analog_prev s i)
      in if value \<noteq> prev_value then
           case analog_cc cfg i value s of
             Inl f \<Rightarrow> Inl f
           | Inr s1 \<Rightarrow>
               (case analog_note cfg i value prev_value s1 of
                  Inl f \<Rightarrow> Inl f
                | Inr s2 \<Rightarrow>
                    Inr (s2\<lparr>g_exp_analog_prev := (g_exp_analog_prev s2)(i := adc_value i)\<rparr>))
         else Inr s)"

fun analog_loop :: "settings \<Rightarrow> (nat \<Rightarrow> u16) \<Rightarrow> nat list \<Rightarrow> globals \<Rightarrow> fault + globals" where
  "analog_loop cfg adc_value [] s = Inr s"
| "analog_loop cfg adc_value (i # rest) s =
     (case analog_channel cfg adc_value i s of
        Inl f \<Rightarrow> Inl f
      | Inr s' \<Rightarrow> analog_loop cfg adc_value rest s')"

text \<open>
  The value of channel \<open>i\<close> after averaging, inversion and the hysteresis loop, which
  reads \<open>g_exp_analog_prev\<close> before any channel is emitted.
\<close>

definition adc_filtered :: "firmware \<Rightarrow> settings \<Rightarrow> tick_inputs \<Rightarrow> globals \<Rightarrow> nat \<Rightarrow> u16" where
  "adc_filtered fw cfg inp s i =
     hysteresis (invert_sliders fw cfg (adc_read_average inp) i) (g_exp_analog_prev s i)"

definition analog_task :: "firmware \<Rightarrow> settings \<Rightarrow> tick_inputs \<Rightarrow> globals \<Rightarrow> fault + globals" where
  "analog_task fw cfg inp s =
     analog_loop cfg (adc_filtered fw cfg inp s) [0..<NUM_ANALOG] s"

section \<open>Keys and banks (lines 563-679)\<close>

text \<open>The local variables that the Fourbanks mode sets up (lines 569-622).\<close>

record bank_vars =
  bank_keydown :: u16
  bank_keyup :: u16
  bank_keystate :: u16
  keydown :: u16
  keyup :: u16
  keyoffset :: u8
  keycount :: u8

definition fourbanks_vars :: "settings \<Rightarrow> tick_inputs \<Rightarrow> bank_vars" where
  "fourbanks_vars cfg inp =
     (case g_key_fourbanks_mode cfg of
        FOURBANKS_OFF \<Rightarrow>
          \<lparr>bank_keydown = 0, bank_keyup = 0, bank_keystate = 0,
           keydown = g_key_down inp, keyup = g_key_up inp, keyoffset = 0, keycount = 16\<rparr>
      | FOURBANKS_INTERNAL \<Rightarrow>
          \<lparr>bank_keydown = g_key_down inp, bank_keyup = g_key_up inp,
           bank_keystate = g_key_state inp,
           keydown = drop_bit 4 (g_key_down inp), keyup = drop_bit 4 (g_key_up inp),
           keyoffset = 4, keycount = 12\<rparr>
      | FOURBANKS_EXTERNAL \<Rightarrow>
          \<lparr>bank_keydown = ucast (g_exp_key_down inp), bank_keyup = ucast (g_exp_key_up inp),
           bank_keystate = ucast (g_exp_key_state inp),
           keydown = g_key_down inp, keyup = g_key_up inp, keyoffset = 0, keycount = 16\<rparr>)"

text \<open>With Fourbanks off, line 591 resets the selected bank.\<close>

definition fourbanks_setup :: "settings \<Rightarrow> globals \<Rightarrow> globals" where
  "fourbanks_setup cfg s =
     (if g_key_fourbanks_mode cfg = FOURBANKS_OFF then s\<lparr>g_key_bank_selected := 0\<rparr> else s)"

text \<open>The loop of lines 632-635; it returns \<open>new_bank\<close>.\<close>

function bank_scan :: "u16 \<Rightarrow> u8 \<Rightarrow> u8 \<Rightarrow> u8" where
  "bank_scan bank_keydown' bank_bit new_bank =
     (if bank_keydown' AND ucast bank_bit = 0 \<and> new_bank < 4
      then bank_scan bank_keydown' (push_bit 1 bank_bit) (new_bank + 1)
      else new_bank)"
  by pat_completeness auto
termination
proof (relation "measure (\<lambda>(k, b, n). 4 - unat n)")
  show "wf (measure (\<lambda>(k :: u16, b :: u8, n :: u8). 4 - unat n))" by simp
next
  fix bank_keydown' :: u16 and bank_bit new_bank :: u8
  assume "bank_keydown' AND ucast bank_bit = 0 \<and> new_bank < 4"
  then have "unat new_bank < 4" by (simp add: word_less_nat_alt)
  then have "unat (new_bank + 1) = unat new_bank + 1"
    by (simp add: unat_word_ariths)
  with \<open>unat new_bank < 4\<close>
  show "((bank_keydown', push_bit 1 bank_bit, new_bank + 1), (bank_keydown', bank_bit, new_bank))
        \<in> measure (\<lambda>(k, b, n). 4 - unat n)"
    by simp
qed

declare bank_scan.simps [simp del]

text \<open>Lines 626-646: a bank key went down.\<close>

definition bank_select :: "bank_vars \<Rightarrow> globals \<Rightarrow> globals" where
  "bank_select bv s =
     (if bank_keydown bv AND 0x000f \<noteq> 0 then
        let new_bank = bank_scan (bank_keydown bv) 1 0;
            s1 = (if g_key_bank_selected s \<noteq> new_bank
                     \<and> bank_keystate bv AND push_bit (unat (g_key_bank_selected s)) 1 \<noteq> 0
                  then midi_stream_note (g_key_bank_selected s) False s
                  else s);
            s2 = midi_stream_note new_bank True s1
        in s2\<lparr>g_key_bank_selected := new_bank\<rparr>
      else s)"

text \<open>Lines 648-654: a bank key went up; \<open>bank_bit\<close> is a \<open>uint8_t\<close>.\<close>

definition bank_release :: "bank_vars \<Rightarrow> globals \<Rightarrow> globals" where
  "bank_release bv s =
     (if bank_keyup bv AND 0x000f \<noteq> 0 then
        let bank_bit = push_bit (unat (g_key_bank_selected s)) 1 :: u8
        in if bank_keyup bv AND ucast bank_bit \<noteq> 0
           then midi_stream_note (g_key_bank_selected s) False s
           else s
      else s)"

text \<open>The body of the loop of lines 659-679 for key \<open>i\<close>; \<open>bit\<close> is \<open>0x0001 << i\<close>.\<close>

definition key_event :: "firmware \<Rightarrow> settings \<Rightarrow> bank_vars \<Rightarrow> nat \<Rightarrow> globals \<Rightarrow> globals" where
  "key_event fw cfg bv i s =
     (let bit = push_bit i 1 :: u16;
          note = midi_fourbanks_key_to_note fw (g_key_fourbanks_mode cfg)
                   (g_key_bank_selected s) (of_nat i + keyoffset bv);
          s1 = (if keydown bv AND bit \<noteq> 0 then
                  midi_stream_note note True
                    (if g_device_mode cfg = ABLETON
                     then midi_stream_raw_cc (g_midi_channel cfg + 1) note 127 s
                     else s)
                else s);
          s2 = (if keyup bv AND bit \<noteq> 0 then
                  let s' = midi_stream_note note False s1
                  in if g_device_mode cfg = ABLETON
                     then midi_stream_raw_cc (g_midi_channel cfg + 1) note 0 s'
                     else s'
                else s1)
      in s2)"

definition key_task :: "firmware \<Rightarrow> settings \<Rightarrow> tick_inputs \<Rightarrow> globals \<Rightarrow> globals" where
  "key_task fw cfg inp s =
     (let bv = fourbanks_vars cfg inp;
          s1 = fourbanks_setup cfg s;
          s2 = bank_select bv s1;
          s3 = bank_release bv s2
      in fold (key_event fw cfg bv) [0..<unat (keycount bv)] s3)"

section \<open>Combos (lines 681-720)\<close>

definition combo_task :: "settings \<Rightarrow> tick_inputs \<Rightarrow> globals \<Rightarrow> globals" where
  "combo_task cfg inp s =
     (if g_combos_enable cfg then
        case combo_action inp of
          COMBO_A_DOWN \<Rightarrow> midi_stream_note 8 True s
        | COMBO_A_RELEASE \<Rightarrow> midi_stream_note 8 False s
        | COMBO_B_DOWN \<Rightarrow> midi_stream_note 9 True s
        | COMBO_B_RELEASE \<Rightarrow> midi_stream_note 9 False s
        | COMBO_C_DOWN \<Rightarrow> midi_stream_note 10 True s
        | COMBO_C_RELEASE \<Rightarrow> midi_stream_note 10 False s
        | COMBO_D_DOWN \<Rightarrow> midi_stream_note 11 True s
        | COMBO_D_RELEASE \<Rightarrow> midi_stream_note 11 False s
        | COMBO_E_DOWN \<Rightarrow> midi_stream_note 12 True s
        | COMBO_E_RELEASE \<Rightarrow> midi_stream_note 12 False s
        | COMBO_NONE \<Rightarrow> s
      else s)"

section \<open>LEDs (lines 726-847)\<close>

text \<open>
  The loops \<open>for (i = basenote; i < basenote + n; ++i)\<close>: \<open>n\<close> cells are read from
  \<open>i\<close> on, and the bit of the key that \<open>to_key\<close> gives is set for each nonzero cell.
\<close>

fun note_leds :: "(u8 \<Rightarrow> u8) \<Rightarrow> nat \<Rightarrow> nat \<Rightarrow> u16 \<Rightarrow> globals \<Rightarrow> fault + u16" where
  "note_leds to_key i 0 leds s = Inr leds"
| "note_leds to_key i (Suc n) leds s =
     (case note_state_read i s of
        Inl f \<Rightarrow> Inl f
      | Inr v \<Rightarrow>
          note_leds to_key (Suc i) n
            (if v > 0 then leds OR push_bit (unat (to_key (of_nat i))) 1 else leds) s)"

text \<open>The loop over the four digital notes (lines 751-758 and 794-801).\<close>

definition digital_key_leds :: "globals \<Rightarrow> u8" where
  "digital_key_leds s =
     fold (\<lambda>i key_leds.
             if g_midi_note_state s (unat (MIDI_DIGITAL_NOTE + of_nat i)) > 0
             then key_leds OR push_bit i 1 else key_leds)
          [0..<4] 0"

definition led_task :: "firmware \<Rightarrow> settings \<Rightarrow> tick_inputs \<Rightarrow> globals \<Rightarrow> fault + globals" where
  "led_task fw cfg inp s =
     (case g_key_fourbanks_mode cfg of
        FOURBANKS_OFF \<Rightarrow>
          (let basenote = MIDI_BASE_NOTE fw in
           case note_leds (midi_note_to_key fw) (unat basenote) 16 0 s of
             Inl f \<Rightarrow> Inl f
           | Inr leds \<Rightarrow>
               let leds' = (if g_led_keypress_enable cfg then leds OR g_key_state inp else leds);
                   key_leds = digital_key_leds s;
                   key_leds' = (if g_exp_led_keypress_enable cfg
                                then key_leds OR g_exp_key_state inp else key_leds)
               in Inr (s\<lparr>exp_key_led := key_leds', led_state := leds'\<rparr>))
      | FOURBANKS_INTERNAL \<Rightarrow>
          (let basenote = MIDI_BASE_NOTE fw + g_key_bank_selected s * 12 in
           case note_leds (midi_fourbanks_note_to_key fw FOURBANKS_INTERNAL (g_key_bank_selected s))
                  (unat basenote) 12 (push_bit (unat (g_key_bank_selected s)) 1) s of
             Inl f \<Rightarrow> Inl f
           | Inr leds \<Rightarrow>
               let leds' = (if g_led_keypress_enable cfg
                            then leds OR (g_key_state inp AND 0xfff0) else leds)
               in Inr (s\<lparr>exp_key_led := digital_key_leds s, led_state := leds'\<rparr>))
      | FOURBANKS_EXTERNAL \<Rightarrow>
          (let bank_led = push_bit (unat (g_key_bank_selected s)) 1 :: u8;
               basenote = MIDI_BASE_NOTE fw + g_key_bank_selected s * 16 in
           case note_leds (midi_fourbanks_note_to_key fw FOURBANKS_EXTERNAL (g_key_bank_selected s))
                  (unat basenote) 16 0 s of
             Inl f \<Rightarrow> Inl f
           | Inr leds \<Rightarrow>
               let leds' = (if g_led_keypress_enable cfg then leds OR g_key_state inp else leds)
               in Inr (s\<lparr>exp_key_led := bank_led, led_state := leds'\<rparr>)))"

definition groundfx_task :: "globals \<Rightarrow> globals" where
  "groundfx_task s =
     (if g_led_groundfx_counter s = 0 then s\<lparr>led_groundfx := True\<rparr>
      else if g_led_groundfx_counter s < 8 then s\<lparr>led_groundfx := False\<rparr>
      else if g_led_groundfx_counter s < 24 then s\<lparr>led_groundfx := True\<rparr>
      else s\<lparr>g_led_groundfx_counter := 0\<rparr>)"

section \<open>The task (lines 175-855)\<close>

definition Midifighter_Task :: "firmware \<Rightarrow> settings \<Rightarrow> tick_inputs \<Rightarrow> globals \<Rightarrow> fault + globals" where
  "Midifighter_Task fw cfg inp s =
     (if \<not> USB_configured inp then Inr (s\<lparr>main_watchdog_flag := True\<rparr>)
      else
        case receive_loop cfg (rx_packets inp) s of
          Inl f \<Rightarrow> Inl f
        | Inr s1 \<Rightarrow>
            (case analog_task fw cfg inp (exp_digital_task cfg inp s1) of
               Inl f \<Rightarrow> Inl f
             | Inr s2 \<Rightarrow>
                 let s3 = combo_task cfg inp (key_task fw cfg inp s2);
                     s4 = s3\<lparr>midi_out := midi_out s3 @ [Device_Flush]\<rparr>
                 in (case led_task fw cfg inp s4 of
                       Inl f \<Rightarrow> Inl f
                     | Inr s5 \<Rightarrow>
                         let s6 = groundfx_task s5
                         in Inr (s6\<lparr>main_watchdog_flag := True,
                                      DDRD := DDRD s6 OR 0x02,
                                      PORTD := PORTD s6 XOR 0x02\<rparr>))))"

section \<open>Reading the MIDI stream\<close>

text \<open>
  What a step added to the stream of driver calls, the note calls among some calls, and
  the values sent on one controller.
\<close>

definition emitted :: "globals \<Rightarrow> globals \<Rightarrow> midi_call list" where
  "emitted s s' = drop (length (midi_out s)) (midi_out s')"

fun notes_of :: "midi_call list \<Rightarrow> midi_call list" where
  "notes_of [] = []"
| "notes_of (Stream_note pitch onoff # es) = Stream_note pitch onoff # notes_of es"
| "notes_of (e # es) = notes_of es"

fun cc_values :: "u8 \<Rightarrow> midi_call list \<Rightarrow> u8 list" where
  "cc_values c [] = []"
| "cc_values c (Stream_cc c' v # es) = (if c' = c then v # cc_values c es else cc_values c es)"
| "cc_values c (e # es) = cc_values c es"

section \<open>Example configuration and inputs\<close>

text \<open>
  Concrete values on which the theorems below are instantiated. The note mapping follows
  the "Midi Map" comment of the task (base note 36, 16 keys in a bank).
\<close>

definition example_firmware :: firmware where
  "example_firmware =
     \<lparr>INVERT_SLIDER_1 = False, INVERT_SLIDER_2 = False,
      INVERT_SLIDER_3 = False, INVERT_SLIDER_4 = False,
      MIDI_BASE_NOTE = 36,
      midi_fourbanks_key_to_note = (\<lambda>mode bank key. 36 + bank * 16 + key),
      midi_note_to_key = (\<lambda>note. note - 36),
      midi_fourbanks_note_to_key = (\<lambda>mode bank note. note - 36 - bank * 16)\<rparr>"

definition example_settings :: settings where
  "example_settings =
     \<lparr>g_midi_channel = 2, g_midi_velocity = 127, g_device_mode = TRAKTOR,
      g_key_fourbanks_mode = FOURBANKS_INTERNAL, g_rotate_enable = False,
      g_combos_enable = False, g_led_keypress_enable = True,
      g_exp_led_keypress_enable = True\<rparr>"

definition quiet_inputs :: tick_inputs where
  "quiet_inputs =
     \<lparr>USB_configured = True, rx_packets = [],
      g_exp_key_down = 0, g_exp_key_up = 0, g_exp_key_state = 0,
      exp_adc_read = (\<lambda>k i. 0),
      g_key_down = 0, g_key_up = 0, g_key_state = 0,
      combo_action = COMBO_NONE\<rparr>"

definition power_on_state :: globals where
  "power_on_state =
     \<lparr>main_watchdog_flag = False, g_midi_note_state = (\<lambda>n. 0),
      g_led_groundfx_counter = 0, g_exp_analog_prev = (\<lambda>i. 0),
      second_cc_value = 0, g_key_bank_selected = 0,
      midi_out = [], sysex_in = [], led_state = 0, exp_key_led = 0,
      led_groundfx = False, DDRD = 0, PORTD = 0\<rparr>"

text \<open>An ADC result that is the same on every channel.\<close>

definition all_channels :: "u16 \<Rightarrow> nat \<Rightarrow> u16" where
  "all_channels v i = v"

text \<open>An ADC that returns the same value on every read.\<close>

definition steady_reads :: "u16 \<Rightarrow> nat \<Rightarrow> nat \<Rightarrow> u16" where
  "steady_reads v k i = v"

definition note_packet :: "4 word \<Rightarrow> u8 \<Rightarrow> u8 \<Rightarrow> u8 \<Rightarrow> MIDI_EventPacket_t" where
  "note_packet command channel note velocity =
     \<lparr>CableNumber = 0, Command = command,
      Data1 = push_bit 4 (ucast command) OR channel, Data2 = note, Data3 = velocity\<rparr>"

section \<open>Word arithmetic used below\<close>

lemma u8_bound: "unat (x :: u8) < 256"
  using unsigned_less [of x, where 'a = nat] by simp

lemma unat_ucast_u8_u16: "unat (ucast (x :: u8) :: u16) = unat x"
proof -
  have "unat x < 2 ^ 16" using u8_bound [of x] by simp
  then show ?thesis
    by (simp add: unsigned_ucast_eq take_bit_nat_eq_self)
qed

lemma unat_ucast_u16_u8: "unat (x :: u16) < 256 \<Longrightarrow> unat (ucast x :: u8) = unat x"
  by (simp add: unsigned_ucast_eq take_bit_nat_eq_self)

lemma ucast_diff_u16:
  fixes a b :: u8
  assumes "b \<le> a"
  shows "unat (ucast a - ucast b :: u16) = unat a - unat b"
proof -
  have "(ucast b :: u16) \<le> ucast a"
    using assms by (simp add: word_le_nat_alt unat_ucast_u8_u16)
  then have "unat (ucast a - ucast b :: u16) = unat (ucast a :: u16) - unat (ucast b :: u16)"
    by (rule unat_sub)
  then show ?thesis by (simp add: unat_ucast_u8_u16)
qed

lemma byte_product_bound:
  assumes "a < (256::nat)" "b < 256"
  shows "a * b < 65536"
proof -
  have "a * b \<le> 255 * 255" using assms by (intro mult_le_mono) auto
  then show ?thesis by simp
qed

section \<open>remap\<close>

lemma remap_numer:
  fixes v f lo hi :: u8
  assumes "f \<le> v" "lo \<le> hi"
  shows "unat ((ucast v - ucast f) * (ucast hi - ucast lo) :: u16)
         = (unat v - unat f) * (unat hi - unat lo)"
proof -
  have b: "(unat v - unat f) * (unat hi - unat lo) < 65536"
    using u8_bound [of v] u8_bound [of hi] by (intro byte_product_bound) auto
  have "unat (ucast v - ucast f :: u16) * unat (ucast hi - ucast lo :: u16) < 2 ^ LENGTH(16)"
    using b by (simp add: ucast_diff_u16 assms)
  then have "unat ((ucast v - ucast f) * (ucast hi - ucast lo) :: u16)
      = unat (ucast v - ucast f :: u16) * unat (ucast hi - ucast lo :: u16)"
    by (rule unat_mult_lem [THEN iffD1])
  then show ?thesis by (simp add: ucast_diff_u16 assms)
qed

lemma remap_nat_le_hi:
  assumes "f \<le> v" "v \<le> t" "f < t" "lo \<le> hi"
  shows "remap_nat v f t lo hi \<le> hi"
proof -
  have "(v - f) * (hi - lo) \<le> (t - f) * (hi - lo)"
    using assms by (intro mult_le_mono) auto
  then have "((v - f) * (hi - lo)) div (t - f) \<le> ((t - f) * (hi - lo)) div (t - f)"
    by (rule div_le_mono)
  also have "\<dots> = hi - lo" using assms by simp
  finally show ?thesis using assms by (simp add: remap_nat_def)
qed

lemma remap_nat_mono:
  assumes "v1 \<le> v2"
  shows "remap_nat v1 f t lo hi \<le> remap_nat v2 f t lo hi"
proof -
  have "(v1 - f) * (hi - lo) \<le> (v2 - f) * (hi - lo)"
    using assms by (intro mult_le_mono) auto
  then show ?thesis by (simp add: remap_nat_def div_le_mono)
qed

lemma remap_inside:
  fixes v f t lo hi :: u8
  assumes "f \<le> v" "v \<le> t" "f < t" "lo \<le> hi"
  shows "\<exists>r. remap v f t lo hi = Inr r
            \<and> unat r = remap_nat (unat v) (unat f) (unat t) (unat lo) (unat hi)"
proof -
  let ?numer = "(ucast v - ucast f) * (ucast hi - ucast lo) :: u16"
  let ?denom = "ucast t - ucast f :: u16"
  let ?q = "((unat v - unat f) * (unat hi - unat lo)) div (unat t - unat f)"
  have nat_le: "unat f \<le> unat v" "unat v \<le> unat t" "unat f < unat t" "unat lo \<le> unat hi"
    using assms by (simp_all add: word_le_nat_alt word_less_nat_alt)
  have d: "unat ?denom = unat t - unat f"
    using assms by (intro ucast_diff_u16) simp
  then have d0: "?denom \<noteq> 0" using nat_le by (auto simp flip: unat_0_iff)
  have q: "unat (?numer div ?denom) = ?q"
    by (simp add: unat_div remap_numer assms d)
  have le: "unat lo + ?q \<le> unat hi"
    using remap_nat_le_hi [OF nat_le] by (simp add: remap_nat_def)
  then have small: "unat lo + ?q < 256" using u8_bound [of hi] by simp
  have "unat (ucast lo :: u16) + unat (?numer div ?denom) < 2 ^ LENGTH(16)"
    using small by (simp add: q unat_ucast_u8_u16)
  then have "unat (ucast lo + ?numer div ?denom)
             = unat (ucast lo :: u16) + unat (?numer div ?denom)"
    by (rule unat_add_lem [THEN iffD1])
  then have s: "unat (ucast lo + ?numer div ?denom) = unat lo + ?q"
    by (simp add: q unat_ucast_u8_u16)
  have "unat (ucast (ucast lo + ?numer div ?denom) :: u8) = unat lo + ?q"
    using s small by (simp add: unat_ucast_u16_u8)
  moreover have "remap v f t lo hi = Inr (ucast (ucast lo + ?numer div ?denom))"
    using assms d0 by (simp add: remap_def Let_def not_less [symmetric])
  ultimately show ?thesis by (simp add: remap_nat_def)
qed

lemma remap_below: "value < from \<Longrightarrow> remap value from to lo hi = Inr lo"
  by (simp add: remap_def)

lemma remap_above: "from < to \<Longrightarrow> to < value \<Longrightarrow> remap value from to lo hi = Inr hi"
  by (auto simp: remap_def)

lemma remap_at_from:
  assumes "from < to" "lo \<le> hi"
  shows "remap from from to lo hi = Inr lo"
proof -
  obtain r where r: "remap from from to lo hi = Inr r"
    "unat r = remap_nat (unat from) (unat from) (unat to) (unat lo) (unat hi)"
    using remap_inside [of "from" "from" to lo hi] assms less_imp_le [OF assms(1)] by auto
  have "unat r = unat lo" using r(2) by (simp add: remap_nat_def)
  then have "r = lo" by (simp add: word_unat_eq_iff)
  with r(1) show ?thesis by simp
qed

lemma remap_at_to:
  assumes "from < to" "lo \<le> hi"
  shows "remap to from to lo hi = Inr hi"
proof -
  obtain r where r: "remap to from to lo hi = Inr r"
    "unat r = remap_nat (unat to) (unat from) (unat to) (unat lo) (unat hi)"
    using remap_inside [of "from" to to lo hi] assms less_imp_le [OF assms(1)] by auto
  have "unat from < unat to" "unat lo \<le> unat hi"
    using assms by (simp_all add: word_le_nat_alt word_less_nat_alt)
  then have "unat r = unat hi" using r(2) by (simp add: remap_nat_def)
  then have "r = hi" by (simp add: word_unat_eq_iff)
  with r(1) show ?thesis by simp
qed

lemma remap_monotone:
  assumes "from < to" "lo \<le> hi" "from \<le> v1" "v1 \<le> v2" "v2 \<le> to"
  shows "\<exists>r1 r2. remap v1 from to lo hi = Inr r1 \<and> remap v2 from to lo hi = Inr r2 \<and> r1 \<le> r2"
proof -
  obtain r1 where r1: "remap v1 from to lo hi = Inr r1"
    "unat r1 = remap_nat (unat v1) (unat from) (unat to) (unat lo) (unat hi)"
    using remap_inside [of "from" v1 to lo hi] assms order_trans [OF assms(4,5)] by auto
  obtain r2 where r2: "remap v2 from to lo hi = Inr r2"
    "unat r2 = remap_nat (unat v2) (unat from) (unat to) (unat lo) (unat hi)"
    using remap_inside [of "from" v2 to lo hi] assms order_trans [OF assms(3,4)] by auto
  have "unat v1 \<le> unat v2" using assms by (simp add: word_le_nat_alt)
  then have "unat r1 \<le> unat r2" unfolding r1(2) r2(2) by (rule remap_nat_mono)
  then have "r1 \<le> r2" by (simp add: word_le_nat_alt)
  with r1(1) r2(1) show ?thesis by blast
qed

text \<open>
  C6. With \<open>from < to\<close> and \<open>lo \<le> hi\<close>, \<open>remap\<close> returns \<open>lo\<close> for every value below
  \<open>from\<close> and at \<open>from\<close>, \<open>hi\<close> for every value above \<open>to\<close> and at \<open>to\<close>, and between
  \<open>from\<close> and \<open>to\<close> a larger value never gives a smaller result.
\<close>

theorem C6_remap_clamps_and_is_monotone:
  assumes "from < to" and "lo \<le> hi"
  shows "(\<forall>value. value < from \<longrightarrow> remap value from to lo hi = Inr lo)
       \<and> (\<forall>value. to < value \<longrightarrow> remap value from to lo hi = Inr hi)
       \<and> remap from from to lo hi = Inr lo
       \<and> remap to from to lo hi = Inr hi
       \<and> (\<forall>v1 v2. from \<le> v1 \<and> v1 \<le> v2 \<and> v2 \<le> to \<longrightarrow>
            (\<exists>r1 r2. remap v1 from to lo hi = Inr r1
                   \<and> remap v2 from to lo hi = Inr r2 \<and> r1 \<le> r2))"
proof (intro conjI allI impI)
  fix v assume "v < from"
  then show "remap v from to lo hi = Inr lo" by (rule remap_below)
next
  fix v assume "to < v"
  with assms(1) show "remap v from to lo hi = Inr hi" by (rule remap_above)
next
  show "remap from from to lo hi = Inr lo" using assms by (rule remap_at_from)
next
  show "remap to from to lo hi = Inr hi" using assms by (rule remap_at_to)
next
  fix v1 v2 assume "from \<le> v1 \<and> v1 \<le> v2 \<and> v2 \<le> to"
  then show "\<exists>r1 r2. remap v1 from to lo hi = Inr r1
                   \<and> remap v2 from to lo hi = Inr r2 \<and> r1 \<le> r2"
    using assms remap_monotone by blast
qed

theorem C6_remap_witness:
  "remap 2 3 124 0 127 = Inr 0
   \<and> remap 125 3 124 0 127 = Inr 127
   \<and> remap 3 3 124 0 127 = Inr 0
   \<and> remap 124 3 124 0 127 = Inr 127
   \<and> (\<exists>r1 r2. remap 64 64 124 0 105 = Inr r1 \<and> remap 100 64 124 0 105 = Inr r2 \<and> r1 \<le> r2)"
proof -
  have h1: "(3 :: u8) < 124" and h2: "(0 :: u8) \<le> 127" by simp_all
  have g1: "(64 :: u8) < 124" and g2: "(0 :: u8) \<le> 105" by simp_all
  have a: "(2 :: u8) < 3" and b: "(124 :: u8) < 125" by simp_all
  have m: "(64 :: u8) \<le> 64 \<and> (64 :: u8) \<le> 100 \<and> (100 :: u8) \<le> 124" by simp
  from C6_remap_clamps_and_is_monotone [OF h1 h2] a b
       C6_remap_clamps_and_is_monotone [OF g1 g2] m
  show ?thesis by blast
qed

section \<open>Inbound MIDI\<close>

lemma note_command_not_system:
  "c = 0x9 \<or> c = 0x8 \<Longrightarrow> (c :: 4 word) \<noteq> 0xF \<and> c \<noteq> 0x4 \<and> c \<noteq> 0x5 \<and> c \<noteq> 0x6 \<and> c \<noteq> 0x7"
  by auto

text \<open>
  C1. A packet with command 0x9 or 0x8 whose channel nibble is the configured channel
  updates the ledger entry of its note (a note the 128-entry ledger has) and nothing
  else: 0x9 stores the velocity byte as received, zero included, and 0x8 stores 0
  whatever velocity the packet carries. On another channel the packet changes nothing.
\<close>

theorem C1_inbound_note_updates_ledger:
  assumes "Command p = 0x9 \<or> Command p = 0x8"
  shows "(Data1 p AND 0x0f = g_midi_channel cfg \<and> unat (Data2 p) < MIDI_MAX_NOTES \<longrightarrow>
            input_event_task cfg p s =
              Inr (s\<lparr>g_midi_note_state := (g_midi_note_state s)
                     (unat (Data2 p) := (if Command p = 0x9 then Data3 p else 0))\<rparr>))
       \<and> (Data1 p AND 0x0f \<noteq> g_midi_channel cfg \<longrightarrow> input_event_task cfg p s = Inr s)"
  using assms note_command_not_system [OF assms]
  by (auto simp add: input_event_task_def note_state_write_def Let_def)

theorem C1_inbound_note_witness:
  "input_event_task example_settings (note_packet 0x9 2 60 0) power_on_state =
     Inr (power_on_state\<lparr>g_midi_note_state := (g_midi_note_state power_on_state)(60 := 0)\<rparr>)
   \<and> input_event_task example_settings (note_packet 0x8 2 60 99)
        (power_on_state\<lparr>g_midi_note_state := (\<lambda>n. 100)\<rparr>) =
     Inr (power_on_state\<lparr>g_midi_note_state := (\<lambda>n. 100)(60 := 0)\<rparr>)
   \<and> input_event_task example_settings (note_packet 0x9 3 60 99) power_on_state =
     Inr power_on_state"
proof -
  have on: "Command (note_packet 0x9 2 60 0) = 0x9 \<or> Command (note_packet 0x9 2 60 0) = 0x8"
    by (simp add: note_packet_def)
  have off: "Command (note_packet 0x8 2 60 99) = 0x9 \<or> Command (note_packet 0x8 2 60 99) = 0x8"
    by (simp add: note_packet_def)
  have other: "Command (note_packet 0x9 3 60 99) = 0x9 \<or> Command (note_packet 0x9 3 60 99) = 0x8"
    by (simp add: note_packet_def)
  show ?thesis
    using C1_inbound_note_updates_ledger [OF on, of example_settings power_on_state]
          C1_inbound_note_updates_ledger [OF off, of example_settings
             "power_on_state\<lparr>g_midi_note_state := (\<lambda>n. 100)\<rparr>"]
          C1_inbound_note_updates_ledger [OF other, of example_settings power_on_state]
    by (simp add: note_packet_def example_settings_def power_on_state_def)
qed

lemma inbound_note_out_of_range:
  assumes "Command p = 0x9 \<or> Command p = 0x8"
      and "Data1 p AND 0x0f = g_midi_channel cfg"
      and "MIDI_MAX_NOTES \<le> unat (Data2 p)"
  shows "input_event_task cfg p s = Inl (NoteStateOutOfBounds (unat (Data2 p)))"
  using assms note_command_not_system [OF assms(1)]
  by (auto simp add: input_event_task_def note_state_write_def Let_def)

text \<open>
  C8. The spec requires every write to the 128-entry ledger to have an index of at most
  127. The inbound path indexes the ledger with the packet's second data byte as
  received: a Note-On for note 200 on the configured channel writes at index 200, and
  the run of the task ends in that fault.
\<close>

theorem C8_inbound_note_writes_past_ledger:
  "Midifighter_Task example_firmware example_settings
     (quiet_inputs\<lparr>rx_packets := [note_packet 0x9 2 200 127]\<rparr>) power_on_state
   = Inl (NoteStateOutOfBounds 200)"
  by (simp add: Midifighter_Task_def quiet_inputs_def input_event_task_def note_packet_def
        example_settings_def note_state_write_def)

text \<open>
  C9. While the USB device is not configured the task sets the watchdog flag and
  returns: the ledger, the selected bank, the analog history, the clock counter, the
  MIDI stream and the LEDs are what they were.
\<close>

theorem C9_not_configured_only_sets_flag:
  assumes "\<not> USB_configured inp"
  shows "Midifighter_Task fw cfg inp s = Inr (s\<lparr>main_watchdog_flag := True\<rparr>)"
  using assms by (simp add: Midifighter_Task_def)

theorem C9_not_configured_witness:
  "\<not> USB_configured (quiet_inputs\<lparr>USB_configured := False, g_key_down := 1,
                         rx_packets := [note_packet 0x9 2 60 127]\<rparr>)
   \<and> Midifighter_Task example_firmware example_settings
        (quiet_inputs\<lparr>USB_configured := False, g_key_down := 1,
                         rx_packets := [note_packet 0x9 2 60 127]\<rparr>) power_on_state
     = Inr (power_on_state\<lparr>main_watchdog_flag := True\<rparr>)"
proof -
  have h: "\<not> USB_configured (quiet_inputs\<lparr>USB_configured := False, g_key_down := 1,
                         rx_packets := [note_packet 0x9 2 60 127]\<rparr>)"
    by simp
  from h C9_not_configured_only_sets_flag [OF h] show ?thesis by blast
qed

section \<open>Bank selection\<close>

lemma and_bit0: "(k :: u16) AND 1 = 0 \<longleftrightarrow> \<not> bit k 0"
  using and_exp_eq_0_iff_not_bit [of k 0] by simp

lemma and_bit1: "(k :: u16) AND 2 = 0 \<longleftrightarrow> \<not> bit k 1"
  using and_exp_eq_0_iff_not_bit [of k 1] by simp

lemma and_bit2: "(k :: u16) AND 4 = 0 \<longleftrightarrow> \<not> bit k 2"
  using and_exp_eq_0_iff_not_bit [of k 2] by simp

lemma and_bit3: "(k :: u16) AND 8 = 0 \<longleftrightarrow> \<not> bit k 3"
  using and_exp_eq_0_iff_not_bit [of k 3] by simp

lemma and_nibble:
  "(k :: u16) AND 0x000f = 0 \<longleftrightarrow> \<not> bit k 0 \<and> \<not> bit k 1 \<and> \<not> bit k 2 \<and> \<not> bit k 3"
proof -
  have "(0x000f :: u16) = 1 OR 2 OR 4 OR 8" by simp
  then have "k AND 0x000f = (k AND 1) OR (k AND 2) OR (k AND 4) OR (k AND 8)"
    by (simp only: bit.conj_disj_distrib)
  then show ?thesis
    by (simp only: or_eq_0_iff and_bit0 and_bit1 and_bit2 and_bit3 conj_assoc)
qed

lemma bank_scan_lowest:
  assumes "k AND 0x000f \<noteq> 0"
  shows "bank_scan k 1 0 =
           (if bit k 0 then 0 else if bit k 1 then 1 else if bit k 2 then 2 else 3)"
proof -
  have any: "bit k 0 \<or> bit k 1 \<or> bit k 2 \<or> bit k 3"
    using assms by (simp add: and_nibble)
  have s4: "bank_scan k 16 4 = 4"
    using bank_scan.simps [of k 16 4] by simp
  have s3: "bank_scan k 8 3 = (if bit k 3 then 3 else 4)"
    using bank_scan.simps [of k 8 3] s4 by (simp add: and_bit3 push_bit_eq_mult del: One_nat_def)
  have s2: "bank_scan k 4 2 = (if bit k 2 then 2 else bank_scan k 8 3)"
    using bank_scan.simps [of k 4 2] by (simp add: and_bit2 push_bit_eq_mult del: One_nat_def)
  have s1: "bank_scan k 2 1 = (if bit k 1 then 1 else bank_scan k 4 2)"
    using bank_scan.simps [of k 2 1] by (simp add: and_bit1 push_bit_eq_mult del: One_nat_def)
  have s0: "bank_scan k 1 0 = (if bit k 0 then 0 else bank_scan k 2 1)"
    using bank_scan.simps [of k 1 0] by (simp add: and_bit0 push_bit_eq_mult del: One_nat_def)
  show ?thesis using any by (auto simp add: s0 s1 s2 s3 simp del: One_nat_def)
qed


lemma bank_scan_is_lowest_bit:
  assumes "k AND 0x000f \<noteq> 0"
  shows "unat (bank_scan k 1 0) < 4 \<and> bit k (unat (bank_scan k 1 0))
         \<and> (\<forall>j < unat (bank_scan k 1 0). \<not> bit k j)"
proof -
  have any: "bit k 0 \<or> bit k 1 \<or> bit k 2 \<or> bit k 3"
    using assms by (simp add: and_nibble)
  have lt1: "\<And>j :: nat. j < 1 \<longleftrightarrow> j = 0" by auto
  have lt2: "\<And>j :: nat. j < 2 \<longleftrightarrow> j = 0 \<or> j = 1" by auto
  have lt3: "\<And>j :: nat. j < 3 \<longleftrightarrow> j = 0 \<or> j = 1 \<or> j = 2" by auto
  show ?thesis
    using any
    by (auto simp add: bank_scan_lowest [OF assms] lt1 lt2 lt3 simp del: One_nat_def)
qed

lemma held_bit: "(w :: u16) AND 2 ^ n = 0 \<longleftrightarrow> \<not> bit w n"
  by (rule and_exp_eq_0_iff_not_bit)

text \<open>
  C2. When one of the four bank-select bits has a down-edge, the new bank is the lowest
  set bit of the down-edge bits; if it differs from the bank selected before and the old
  bank's key is still held, the block emits Note-Off for the old bank and then Note-On
  for the new one, and nothing else; otherwise it emits just the Note-On for the new
  bank, also when that bank was selected already.
\<close>

theorem C2_bank_select_lowest_bit_and_forced_note_off:
  assumes "bv = fourbanks_vars cfg inp"
      and "bank_keydown bv AND 0x000f \<noteq> 0"
      and "g_key_bank_selected s < 4"
  shows "\<exists>new_bank.
           unat new_bank < 4
         \<and> bit (bank_keydown bv) (unat new_bank)
         \<and> (\<forall>j < unat new_bank. \<not> bit (bank_keydown bv) j)
         \<and> g_key_bank_selected (bank_select bv s) = new_bank
         \<and> midi_out (bank_select bv s) = midi_out s @
             (if g_key_bank_selected s \<noteq> new_bank
                 \<and> bit (bank_keystate bv) (unat (g_key_bank_selected s))
              then [Stream_note (g_key_bank_selected s) False, Stream_note new_bank True]
              else [Stream_note new_bank True])"
proof -
  let ?n = "bank_scan (bank_keydown bv) 1 0"
  have low: "unat ?n < 4 \<and> bit (bank_keydown bv) (unat ?n)
             \<and> (\<forall>j < unat ?n. \<not> bit (bank_keydown bv) j)"
    using assms(2) by (rule bank_scan_is_lowest_bit)
  have sel: "g_key_bank_selected (bank_select bv s) = ?n"
    using assms(2) by (simp add: bank_select_def Let_def midi_stream_note_def)
  have out: "midi_out (bank_select bv s) = midi_out s @
             (if g_key_bank_selected s \<noteq> ?n
                 \<and> bit (bank_keystate bv) (unat (g_key_bank_selected s))
              then [Stream_note (g_key_bank_selected s) False, Stream_note ?n True]
              else [Stream_note ?n True])"
    using assms(2) by (simp add: bank_select_def Let_def midi_stream_note_def held_bit)
  from low sel out show ?thesis by blast
qed


theorem C2_bank_select_witness:
  "bank_keydown (fourbanks_vars example_settings (quiet_inputs\<lparr>g_key_down := 6, g_key_state := 7\<rparr>))
     AND 0x000f \<noteq> 0
   \<and> g_key_bank_selected power_on_state < 4
   \<and> g_key_bank_selected
        (bank_select (fourbanks_vars example_settings
           (quiet_inputs\<lparr>g_key_down := 6, g_key_state := 7\<rparr>)) power_on_state) = 1
   \<and> midi_out
        (bank_select (fourbanks_vars example_settings
           (quiet_inputs\<lparr>g_key_down := 6, g_key_state := 7\<rparr>)) power_on_state)
       = [Stream_note 0 False, Stream_note 1 True]"
proof -
  let ?inp = "quiet_inputs\<lparr>g_key_down := 6, g_key_state := 7\<rparr>"
  let ?bv = "fourbanks_vars example_settings ?inp"
  have kd: "bank_keydown ?bv = 6" and ks: "bank_keystate ?bv = 7"
    by (simp_all add: fourbanks_vars_def example_settings_def)
  have h2: "bank_keydown ?bv AND 0x000f \<noteq> 0" by (simp add: kd)
  have h3: "g_key_bank_selected power_on_state < 4" by (simp add: power_on_state_def)
  have sel0: "g_key_bank_selected power_on_state = 0" by (simp add: power_on_state_def)
  have b0: "\<not> bit (6 :: u16) 0" and b1: "bit (6 :: u16) 1" and held: "bit (7 :: u16) 0"
    by simp_all
  from C2_bank_select_lowest_bit_and_forced_note_off [OF refl h2 h3]
  obtain n where n: "unat n < 4" "bit (6 :: u16) (unat n)" "\<forall>j < unat n. \<not> bit (6 :: u16) j"
      "g_key_bank_selected (bank_select ?bv power_on_state) = n"
      "midi_out (bank_select ?bv power_on_state) = midi_out power_on_state @
         (if g_key_bank_selected power_on_state \<noteq> n
             \<and> bit (bank_keystate ?bv) (unat (g_key_bank_selected power_on_state))
          then [Stream_note (g_key_bank_selected power_on_state) False, Stream_note n True]
          else [Stream_note n True])"
    unfolding kd by blast
  have "\<not> 1 < unat n" using n(3) b1 by blast
  moreover have "unat n \<noteq> 0"
  proof
    assume "unat n = 0"
    with n(2) have "bit (6 :: u16) 0" by simp
    with b0 show False by simp
  qed
  ultimately have "unat n = 1" by simp
  then have "unat n = unat (1 :: u8)" by simp
  then have n1: "n = 1" by (simp only: word_unat_eq_iff)
  have "midi_out (bank_select ?bv power_on_state) = [Stream_note 0 False, Stream_note 1 True]"
    using n(5) held by (simp add: n1 sel0 ks) (simp add: power_on_state_def)
  with h2 h3 n(4) n1 show ?thesis by simp
qed

section \<open>Calls appended to the MIDI stream\<close>

lemma emitted_append [simp]: "midi_out s' = midi_out s @ es \<Longrightarrow> emitted s s' = es"
  by (simp add: emitted_def)

lemma notes_of_append [simp]: "notes_of (xs @ ys) = notes_of xs @ notes_of ys"
  by (induction xs rule: notes_of.induct) simp_all

lemma cc_values_append [simp]: "cc_values c (xs @ ys) = cc_values c xs @ cc_values c ys"
  by (induction c xs rule: cc_values.induct) simp_all

lemma remap_total:
  assumes "from < to"
  shows "\<exists>r. remap value from to lo hi = Inr r"
proof -
  have "unat (ucast to - ucast from :: u16) = unat to - unat from"
    using assms by (intro ucast_diff_u16) simp
  moreover have "unat from < unat to" using assms by (simp add: word_less_nat_alt)
  ultimately have "(ucast to - ucast from :: u16) \<noteq> 0"
    by (auto simp flip: unat_0_iff)
  then show ?thesis by (simp add: remap_def Let_def)
qed

lemma analog_index:
  assumes "i < NUM_ANALOG"
  shows "unat (note_a i) = 100 + 2 * i" "unat (note_b i) = 101 + 2 * i"
        "unat (cc_a i) = 16 + 2 * i" "unat (cc_b i) = 17 + 2 * i"
proof -
  from assms consider "i = 0" | "i = 1" | "i = 2" | "i = 3" by linarith
  then show "unat (note_a i) = 100 + 2 * i" by cases (simp_all add: note_a_def)
  from assms consider "i = 0" | "i = 1" | "i = 2" | "i = 3" by linarith
  then show "unat (note_b i) = 101 + 2 * i" by cases (simp_all add: note_b_def)
  from assms consider "i = 0" | "i = 1" | "i = 2" | "i = 3" by linarith
  then show "unat (cc_a i) = 16 + 2 * i" by cases (simp_all add: cc_a_def)
  from assms consider "i = 0" | "i = 1" | "i = 2" | "i = 3" by linarith
  then show "unat (cc_b i) = 17 + 2 * i" by cases (simp_all add: cc_b_def)
qed

lemma analog_note_write:
  assumes "i < NUM_ANALOG"
  shows "note_state_write (note_a i) v s
           = Inr (s\<lparr>g_midi_note_state := (g_midi_note_state s)(unat (note_a i) := v)\<rparr>)"
    and "note_state_write (note_b i) v s
           = Inr (s\<lparr>g_midi_note_state := (g_midi_note_state s)(unat (note_b i) := v)\<rparr>)"
  using assms by (simp_all add: note_state_write_def analog_index)

lemma cc_a_neq_cc_b: "i < NUM_ANALOG \<Longrightarrow> cc_a i \<noteq> cc_b i"
proof
  assume i: "i < NUM_ANALOG" and "cc_a i = cc_b i"
  then have "unat (cc_a i) = unat (cc_b i)" by simp
  with i show False by (simp add: analog_index)
qed

section \<open>The CC block of a channel\<close>

lemma analog_cc_outside:
  assumes "value < 3 \<or> 124 < value"
  shows "analog_cc cfg i value s = Inr s"
  using assms by (auto simp add: analog_cc_def word_le_nat_alt word_less_nat_alt)

lemma analog_cc_other_mode:
  assumes "3 \<le> value" "value \<le> 124" "g_device_mode cfg \<noteq> TRAKTOR"
  shows "\<exists>r1. remap value 3 124 0 127 = Inr r1
            \<and> analog_cc cfg i value s = Inr (s\<lparr>midi_out := midi_out s @ [Stream_cc (cc_a i) r1]\<rparr>)"
proof -
  obtain r1 where r1: "remap value 3 124 0 127 = Inr r1"
    using remap_total [of 3 124 "value" 0 127] by auto
  then show ?thesis using assms by (simp add: analog_cc_def midi_stream_cc_def)
qed

lemma analog_cc_upper_half:
  assumes "64 \<le> value" "value \<le> 124" "g_device_mode cfg = TRAKTOR"
  shows "\<exists>r1 r2. remap value 3 124 0 127 = Inr r1 \<and> remap value 64 124 0 105 = Inr r2
            \<and> analog_cc cfg i value s
                = Inr (s\<lparr>midi_out := midi_out s @ [Stream_cc (cc_a i) r1, Stream_cc (cc_b i) r2],
                        second_cc_value := r2\<rparr>)"
proof -
  obtain r1 where r1: "remap value 3 124 0 127 = Inr r1"
    using remap_total [of 3 124 "value" 0 127] by auto
  obtain r2 where r2: "remap value 64 124 0 105 = Inr r2"
    using remap_total [of 64 124 "value" 0 105] by auto
  have "3 \<le> value" using assms(1) by (simp add: word_le_nat_alt)
  then show ?thesis using assms r1 r2 by (simp add: analog_cc_def midi_stream_cc_def)
qed

lemma analog_cc_lower_half_zeroes:
  assumes "3 \<le> value" "value < 64" "g_device_mode cfg = TRAKTOR" "0 < second_cc_value s"
  shows "\<exists>r1. remap value 3 124 0 127 = Inr r1
            \<and> analog_cc cfg i value s
                = Inr (s\<lparr>midi_out := midi_out s @ [Stream_cc (cc_a i) r1, Stream_cc (cc_b i) 0],
                        second_cc_value := 0\<rparr>)"
proof -
  obtain r1 where r1: "remap value 3 124 0 127 = Inr r1"
    using remap_total [of 3 124 "value" 0 127] by auto
  have "value \<le> 124" "\<not> 64 \<le> value"
    using assms(2) by (simp_all add: word_le_nat_alt word_less_nat_alt)
  then show ?thesis using assms r1 by (simp add: analog_cc_def midi_stream_cc_def)
qed

lemma analog_cc_lower_half_quiet:
  assumes "3 \<le> value" "value < 64" "g_device_mode cfg = TRAKTOR" "second_cc_value s = 0"
  shows "\<exists>r1. remap value 3 124 0 127 = Inr r1
            \<and> analog_cc cfg i value s
                = Inr (s\<lparr>midi_out := midi_out s @ [Stream_cc (cc_a i) r1]\<rparr>)"
proof -
  obtain r1 where r1: "remap value 3 124 0 127 = Inr r1"
    using remap_total [of 3 124 "value" 0 127] by auto
  have "value \<le> 124" "\<not> 64 \<le> value"
    using assms(2) by (simp_all add: word_le_nat_alt word_less_nat_alt)
  then show ?thesis using assms r1 by (simp add: analog_cc_def midi_stream_cc_def)
qed

text \<open>
  In every case the block appends CC calls on the channel's two controllers and touches
  no field but the stream and \<open>second_cc_value\<close>.
\<close>

lemma analog_cc_shape:
  "\<exists>ccs scc. analog_cc cfg i value s
              = Inr (s\<lparr>midi_out := midi_out s @ ccs, second_cc_value := scc\<rparr>)
           \<and> notes_of ccs = []
           \<and> (\<forall>c. c \<noteq> cc_a i \<and> c \<noteq> cc_b i \<longrightarrow> cc_values c ccs = [])"
proof (cases "value < 3 \<or> 124 < value")
  case True
  then have "analog_cc cfg i value s = Inr s" by (rule analog_cc_outside)
  then show ?thesis
    by (intro exI [of _ "[]"] exI [of _ "second_cc_value s"]) simp
next
  case False
  then have inside: "3 \<le> value" "value \<le> 124" by (simp_all add: not_less)
  show ?thesis
  proof (cases "g_device_mode cfg = TRAKTOR")
    case False
    from analog_cc_other_mode [OF inside this] obtain r1 where
      "analog_cc cfg i value s = Inr (s\<lparr>midi_out := midi_out s @ [Stream_cc (cc_a i) r1]\<rparr>)"
      by blast
    then show ?thesis
      by (intro exI [of _ "[Stream_cc (cc_a i) r1]"] exI [of _ "second_cc_value s"]) simp
  next
    case traktor: True
    show ?thesis
    proof (cases "64 \<le> value")
      case True
      from analog_cc_upper_half [OF this inside(2) traktor] obtain r1 r2 where
        "analog_cc cfg i value s
          = Inr (s\<lparr>midi_out := midi_out s @ [Stream_cc (cc_a i) r1, Stream_cc (cc_b i) r2],
                  second_cc_value := r2\<rparr>)"
        by blast
      then show ?thesis
        by (intro exI [of _ "[Stream_cc (cc_a i) r1, Stream_cc (cc_b i) r2]"] exI [of _ r2]) simp
    next
      case False
      then have low: "value < 64" by (simp add: not_le)
      show ?thesis
      proof (cases "second_cc_value s = 0")
        case True
        from analog_cc_lower_half_quiet [OF inside(1) low traktor this] obtain r1 where
          "analog_cc cfg i value s = Inr (s\<lparr>midi_out := midi_out s @ [Stream_cc (cc_a i) r1]\<rparr>)"
          by blast
        then show ?thesis
          by (intro exI [of _ "[Stream_cc (cc_a i) r1]"] exI [of _ "second_cc_value s"]) simp
      next
        case False
        then have "0 < second_cc_value s" by (simp add: word_greater_zero_iff)
        from analog_cc_lower_half_zeroes [OF inside(1) low traktor this] obtain r1 where
          "analog_cc cfg i value s
            = Inr (s\<lparr>midi_out := midi_out s @ [Stream_cc (cc_a i) r1, Stream_cc (cc_b i) 0],
                    second_cc_value := 0\<rparr>)"
          by blast
        then show ?thesis
          by (intro exI [of _ "[Stream_cc (cc_a i) r1, Stream_cc (cc_b i) 0]"] exI [of _ 0]) simp
      qed
    qed
  qed
qed

section \<open>The note block of a channel\<close>

lemma analog_note_other_mode:
  "g_device_mode cfg \<noteq> TRAKTOR \<Longrightarrow> analog_note cfg i value prev_value s = Inr s"
  by (simp add: analog_note_def)

lemma analog_note_enter_bottom:
  assumes "g_device_mode cfg = TRAKTOR" "i < NUM_ANALOG" "value \<le> 3" "3 < prev_value"
  shows "analog_note cfg i value prev_value s
           = Inr (s\<lparr>midi_out := midi_out s @ [Stream_note (note_a i) True],
                   g_midi_note_state :=
                     (g_midi_note_state s)(unat (note_a i) := g_midi_velocity cfg)\<rparr>)"
  using assms by (simp add: analog_note_def analog_note_write midi_stream_note_def)

lemma analog_note_leave_bottom:
  assumes "g_device_mode cfg = TRAKTOR" "i < NUM_ANALOG" "3 < value" "prev_value \<le> 3"
  shows "analog_note cfg i value prev_value s
           = Inr (s\<lparr>midi_out := midi_out s @ [Stream_note (note_a i) False],
                   g_midi_note_state := (g_midi_note_state s)(unat (note_a i) := 0)\<rparr>)"
  using assms
  by (simp add: analog_note_def analog_note_write midi_stream_note_def
        word_le_nat_alt word_less_nat_alt)

lemma analog_note_enter_top:
  assumes "g_device_mode cfg = TRAKTOR" "i < NUM_ANALOG"
      and "124 \<le> value" "3 < prev_value" "prev_value < 124"
  shows "analog_note cfg i value prev_value s
           = Inr (s\<lparr>midi_out := midi_out s @ [Stream_note (note_b i) True],
                   g_midi_note_state :=
                     (g_midi_note_state s)(unat (note_b i) := g_midi_velocity cfg)\<rparr>)"
  using assms
  by (simp add: analog_note_def analog_note_write midi_stream_note_def
        word_le_nat_alt word_less_nat_alt)

lemma analog_note_leave_top:
  assumes "g_device_mode cfg = TRAKTOR" "i < NUM_ANALOG"
      and "3 < value" "value < 124" "124 \<le> prev_value"
  shows "analog_note cfg i value prev_value s
           = Inr (s\<lparr>midi_out := midi_out s @ [Stream_note (note_b i) False],
                   g_midi_note_state := (g_midi_note_state s)(unat (note_b i) := 0)\<rparr>)"
  using assms
  by (simp add: analog_note_def analog_note_write midi_stream_note_def
        word_le_nat_alt word_less_nat_alt)

lemma analog_note_no_crossing:
  assumes "value \<le> 3 \<longleftrightarrow> prev_value \<le> 3" "124 \<le> value \<longleftrightarrow> 124 \<le> prev_value"
  shows "analog_note cfg i value prev_value s = Inr s"
  using assms
  by (auto simp add: analog_note_def word_le_nat_alt word_less_nat_alt)


text \<open>
  In every case the note block appends at most one note call and writes at most one cell
  of the ledger, the cell of one of the channel's two notes.
\<close>

lemma analog_note_shape:
  assumes "i < NUM_ANALOG"
  shows "\<exists>ns L. analog_note cfg i value prev_value s
                = Inr (s\<lparr>midi_out := midi_out s @ ns, g_midi_note_state := L\<rparr>)
             \<and> (\<forall>c. cc_values c ns = [])
             \<and> notes_of ns =
                 (if g_device_mode cfg = TRAKTOR then
                    if value \<le> 3 \<and> 3 < prev_value then [Stream_note (note_a i) True]
                    else if 3 < value \<and> prev_value \<le> 3 then [Stream_note (note_a i) False]
                    else if 124 \<le> value \<and> prev_value < 124 then [Stream_note (note_b i) True]
                    else if value < 124 \<and> 124 \<le> prev_value then [Stream_note (note_b i) False]
                    else []
                  else [])"
proof -
  have same: "analog_note cfg i value prev_value s = Inr s \<Longrightarrow>
      analog_note cfg i value prev_value s
        = Inr (s\<lparr>midi_out := midi_out s @ [], g_midi_note_state := g_midi_note_state s\<rparr>)"
    by simp
  show ?thesis
  proof (cases "g_device_mode cfg = TRAKTOR")
    case False
    then have "analog_note cfg i value prev_value s = Inr s" by (rule analog_note_other_mode)
    from same [OF this] show ?thesis
      by (intro exI [of _ "[]"] exI [of _ "g_midi_note_state s"]) (simp add: False)
  next
    case traktor: True
    show ?thesis
    proof (cases "value \<le> 3 \<and> 3 < prev_value")
      case True
      then have "analog_note cfg i value prev_value s
           = Inr (s\<lparr>midi_out := midi_out s @ [Stream_note (note_a i) True],
                   g_midi_note_state :=
                     (g_midi_note_state s)(unat (note_a i) := g_midi_velocity cfg)\<rparr>)"
        using analog_note_enter_bottom [OF traktor assms] by simp
      then show ?thesis
        by (intro exI [of _ "[Stream_note (note_a i) True]"]
              exI [of _ "(g_midi_note_state s)(unat (note_a i) := g_midi_velocity cfg)"]) (simp add: True traktor)
    next
      case c1: False
      show ?thesis
      proof (cases "3 < value \<and> prev_value \<le> 3")
        case True
        then have "analog_note cfg i value prev_value s
             = Inr (s\<lparr>midi_out := midi_out s @ [Stream_note (note_a i) False],
                     g_midi_note_state := (g_midi_note_state s)(unat (note_a i) := 0)\<rparr>)"
          using analog_note_leave_bottom [OF traktor assms] by simp
        then show ?thesis
          by (intro exI [of _ "[Stream_note (note_a i) False]"]
                exI [of _ "(g_midi_note_state s)(unat (note_a i) := 0)"]) (simp add: True c1 traktor)
      next
        case c2: False
        show ?thesis
        proof (cases "124 \<le> value \<and> prev_value < 124")
          case True
          with c1 c2 have "3 < prev_value"
            by (auto simp add: not_le not_less word_le_nat_alt word_less_nat_alt)
          with True have "analog_note cfg i value prev_value s
               = Inr (s\<lparr>midi_out := midi_out s @ [Stream_note (note_b i) True],
                       g_midi_note_state :=
                         (g_midi_note_state s)(unat (note_b i) := g_midi_velocity cfg)\<rparr>)"
            using analog_note_enter_top [OF traktor assms] by simp
          then show ?thesis
            by (intro exI [of _ "[Stream_note (note_b i) True]"]
                  exI [of _ "(g_midi_note_state s)(unat (note_b i) := g_midi_velocity cfg)"]) (simp add: True c1 c2 traktor)
        next
          case c3: False
          show ?thesis
          proof (cases "value < 124 \<and> 124 \<le> prev_value")
            case True
            with c1 c2 have "3 < value"
              by (auto simp add: not_le not_less word_le_nat_alt word_less_nat_alt)
            with True have "analog_note cfg i value prev_value s
                 = Inr (s\<lparr>midi_out := midi_out s @ [Stream_note (note_b i) False],
                         g_midi_note_state := (g_midi_note_state s)(unat (note_b i) := 0)\<rparr>)"
              using analog_note_leave_top [OF traktor assms] by simp
            then show ?thesis
              by (intro exI [of _ "[Stream_note (note_b i) False]"]
                    exI [of _ "(g_midi_note_state s)(unat (note_b i) := 0)"]) (simp add: True c1 c2 c3 traktor)
          next
            case c4: False
            have "analog_note cfg i value prev_value s = Inr s"
              by (simp add: analog_note_def traktor c1 c2 c3 c4)
            from same [OF this] show ?thesis
              by (intro exI [of _ "[]"] exI [of _ "g_midi_note_state s"])
                 (simp add: c1 c2 c3 c4 traktor)
          qed
        qed
      qed
    qed
  qed
qed

section \<open>One channel of the analog loop\<close>

lemma analog_channel_unchanged:
  assumes "cc_value_of_adc (adc_value i) = cc_value_of_adc (g_exp_analog_prev s i)"
  shows "analog_channel cfg adc_value i s = Inr s"
  using assms by (simp add: analog_channel_def)

lemma analog_channel_changed:
  assumes "cc_value_of_adc (adc_value i) \<noteq> cc_value_of_adc (g_exp_analog_prev s i)"
  shows "\<exists>ccs scc.
           notes_of ccs = []
         \<and> (\<forall>c. c \<noteq> cc_a i \<and> c \<noteq> cc_b i \<longrightarrow> cc_values c ccs = [])
         \<and> analog_cc cfg i (cc_value_of_adc (adc_value i)) s
             = Inr (s\<lparr>midi_out := midi_out s @ ccs, second_cc_value := scc\<rparr>)
         \<and> analog_channel cfg adc_value i s
             = (case analog_note cfg i (cc_value_of_adc (adc_value i))
                       (cc_value_of_adc (g_exp_analog_prev s i))
                       (s\<lparr>midi_out := midi_out s @ ccs, second_cc_value := scc\<rparr>) of
                  Inl f \<Rightarrow> Inl f
                | Inr s2 \<Rightarrow>
                    Inr (s2\<lparr>g_exp_analog_prev := (g_exp_analog_prev s2)(i := adc_value i)\<rparr>))"
proof -
  obtain ccs scc where cc:
    "analog_cc cfg i (cc_value_of_adc (adc_value i)) s
       = Inr (s\<lparr>midi_out := midi_out s @ ccs, second_cc_value := scc\<rparr>)"
    "notes_of ccs = []"
    "\<forall>c. c \<noteq> cc_a i \<and> c \<noteq> cc_b i \<longrightarrow> cc_values c ccs = []"
    using analog_cc_shape [of cfg i "cc_value_of_adc (adc_value i)" s] by blast
  have "analog_channel cfg adc_value i s
          = (case analog_note cfg i (cc_value_of_adc (adc_value i))
                    (cc_value_of_adc (g_exp_analog_prev s i))
                    (s\<lparr>midi_out := midi_out s @ ccs, second_cc_value := scc\<rparr>) of
               Inl f \<Rightarrow> Inl f
             | Inr s2 \<Rightarrow>
                 Inr (s2\<lparr>g_exp_analog_prev := (g_exp_analog_prev s2)(i := adc_value i)\<rparr>))"
    using assms by (simp add: analog_channel_def Let_def cc(1))
  with cc show ?thesis by blast
qed

text \<open>
  One run of the loop body, for any mode: the calls it appends are CC calls on the
  channel's controllers followed by the note calls of the note block, and the stored
  value of the channel becomes the new one exactly when the 7-bit value changed.
\<close>

lemma analog_channel_step:
  assumes "i < NUM_ANALOG"
      and "value = cc_value_of_adc (adc_value i)"
      and "prev_value = cc_value_of_adc (g_exp_analog_prev s i)"
  shows "\<exists>s' ccs ns.
           analog_channel cfg adc_value i s = Inr s'
         \<and> midi_out s' = midi_out s @ ccs @ ns
         \<and> notes_of ccs = [] \<and> (\<forall>c. cc_values c ns = [])
         \<and> (\<forall>c. c \<noteq> cc_a i \<and> c \<noteq> cc_b i \<longrightarrow> cc_values c ccs = [])
         \<and> (value = prev_value \<longrightarrow> s' = s \<and> ccs = [] \<and> ns = [])
         \<and> (value \<noteq> prev_value \<longrightarrow>
               analog_cc cfg i value s
                 = Inr (s\<lparr>midi_out := midi_out s @ ccs, second_cc_value := second_cc_value s'\<rparr>)
             \<and> g_exp_analog_prev s' = (g_exp_analog_prev s)(i := adc_value i)
             \<and> notes_of ns =
                 (if g_device_mode cfg = TRAKTOR then
                    if value \<le> 3 \<and> 3 < prev_value then [Stream_note (note_a i) True]
                    else if 3 < value \<and> prev_value \<le> 3 then [Stream_note (note_a i) False]
                    else if 124 \<le> value \<and> prev_value < 124 then [Stream_note (note_b i) True]
                    else if value < 124 \<and> 124 \<le> prev_value then [Stream_note (note_b i) False]
                    else []
                  else []))"
proof (cases "value = prev_value")
  case True
  then have "analog_channel cfg adc_value i s = Inr s"
    using assms(2,3) by (simp add: analog_channel_unchanged)
  with True show ?thesis
    by (intro exI [of _ s] exI [of _ "[]"]) simp
next
  case False
  then obtain ccs scc where ccs: "notes_of ccs = []"
      "\<forall>c. c \<noteq> cc_a i \<and> c \<noteq> cc_b i \<longrightarrow> cc_values c ccs = []"
      "analog_cc cfg i value s = Inr (s\<lparr>midi_out := midi_out s @ ccs, second_cc_value := scc\<rparr>)"
    and ch: "analog_channel cfg adc_value i s
             = (case analog_note cfg i value prev_value
                       (s\<lparr>midi_out := midi_out s @ ccs, second_cc_value := scc\<rparr>) of
                  Inl f \<Rightarrow> Inl f
                | Inr s2 \<Rightarrow>
                    Inr (s2\<lparr>g_exp_analog_prev := (g_exp_analog_prev s2)(i := adc_value i)\<rparr>))"
    using analog_channel_changed [of adc_value i s cfg] assms(2,3) by auto
  let ?s1 = "s\<lparr>midi_out := midi_out s @ ccs, second_cc_value := scc\<rparr>"
  obtain ns L where ns:
      "analog_note cfg i value prev_value ?s1
         = Inr (?s1\<lparr>midi_out := midi_out ?s1 @ ns, g_midi_note_state := L\<rparr>)"
      "\<forall>c. cc_values c ns = []"
      "notes_of ns =
         (if g_device_mode cfg = TRAKTOR then
            if value \<le> 3 \<and> 3 < prev_value then [Stream_note (note_a i) True]
            else if 3 < value \<and> prev_value \<le> 3 then [Stream_note (note_a i) False]
            else if 124 \<le> value \<and> prev_value < 124 then [Stream_note (note_b i) True]
            else if value < 124 \<and> 124 \<le> prev_value then [Stream_note (note_b i) False]
            else []
          else [])"
    using analog_note_shape [OF assms(1), of cfg "value" prev_value ?s1] by blast
  let ?s' = "?s1\<lparr>midi_out := midi_out ?s1 @ ns, g_midi_note_state := L,
                   g_exp_analog_prev := (g_exp_analog_prev s)(i := adc_value i)\<rparr>"
  have res: "analog_channel cfg adc_value i s = Inr ?s'"
    by (simp add: ch ns(1))
  have out: "midi_out ?s' = midi_out s @ ccs @ ns" by simp
  have scc: "second_cc_value ?s' = scc" by simp
  have prev: "g_exp_analog_prev ?s' = (g_exp_analog_prev s)(i := adc_value i)" by simp
  show ?thesis
    using False res out ccs(1,2) ns(2,3) prev
    by (intro exI [of _ ?s'] exI [of _ ccs] exI [of _ ns]) (simp only: ccs(3) scc simp_thms)
qed

text \<open>
  C3, as the code has it. In Traktor mode, for a channel whose 7-bit value changed:
  entering the bottom zone (value at most 3, previous value above 3) emits Note-On for
  note_a and stores the configured velocity \<open>g_midi_velocity\<close> for note_a; leaving the
  bottom zone emits Note-Off for note_a and stores 0; entering the top zone from between
  the zones (value at least 124, previous value above 3 and below 124) emits Note-On
  for note_b and stores the configured velocity; leaving the top zone to a value between
  the zones emits Note-Off for note_b and stores 0; when neither boundary is crossed
  no note is emitted and the ledger is unchanged.
\<close>

theorem C3_dual_zone_notes:
  assumes "g_device_mode cfg = TRAKTOR" and "i < NUM_ANALOG"
      and "value = cc_value_of_adc (adc_value i)"
      and "prev_value = cc_value_of_adc (g_exp_analog_prev s i)"
      and "value \<noteq> prev_value"
  shows "\<exists>s'. analog_channel cfg adc_value i s = Inr s'
     \<and> (value \<le> 3 \<and> 3 < prev_value \<longrightarrow>
          Stream_note (note_a i) True \<in> set (emitted s s')
          \<and> g_midi_note_state s' (unat (note_a i)) = g_midi_velocity cfg)
     \<and> (3 < value \<and> prev_value \<le> 3 \<longrightarrow>
          Stream_note (note_a i) False \<in> set (emitted s s')
          \<and> g_midi_note_state s' (unat (note_a i)) = 0)
     \<and> (124 \<le> value \<and> 3 < prev_value \<and> prev_value < 124 \<longrightarrow>
          Stream_note (note_b i) True \<in> set (emitted s s')
          \<and> g_midi_note_state s' (unat (note_b i)) = g_midi_velocity cfg)
     \<and> (3 < value \<and> value < 124 \<and> 124 \<le> prev_value \<longrightarrow>
          Stream_note (note_b i) False \<in> set (emitted s s')
          \<and> g_midi_note_state s' (unat (note_b i)) = 0)
     \<and> ((value \<le> 3 \<longleftrightarrow> prev_value \<le> 3) \<and> (124 \<le> value \<longleftrightarrow> 124 \<le> prev_value) \<longrightarrow>
          notes_of (emitted s s') = [] \<and> g_midi_note_state s' = g_midi_note_state s)"
proof -
  obtain ccs scc where ccs: "notes_of ccs = []"
    and ch: "analog_channel cfg adc_value i s
             = (case analog_note cfg i value prev_value
                       (s\<lparr>midi_out := midi_out s @ ccs, second_cc_value := scc\<rparr>) of
                  Inl f \<Rightarrow> Inl f
                | Inr s2 \<Rightarrow>
                    Inr (s2\<lparr>g_exp_analog_prev := (g_exp_analog_prev s2)(i := adc_value i)\<rparr>))"
    using analog_channel_changed [of adc_value i s cfg] assms(3,4,5) by auto
  let ?s1 = "s\<lparr>midi_out := midi_out s @ ccs, second_cc_value := scc\<rparr>"
  consider
      (enter_bottom) "value \<le> 3" "3 < prev_value"
    | (leave_bottom) "3 < value" "prev_value \<le> 3"
    | (enter_top) "124 \<le> value" "3 < prev_value" "prev_value < 124"
    | (leave_top) "3 < value" "value < 124" "124 \<le> prev_value"
    | (no_crossing) "value \<le> 3 \<longleftrightarrow> prev_value \<le> 3" "124 \<le> value \<longleftrightarrow> 124 \<le> prev_value"
    by (cases "value \<le> 3"; cases "prev_value \<le> 3"; cases "124 \<le> value"; cases "124 \<le> prev_value")
       (auto simp add: not_le word_le_nat_alt word_less_nat_alt)
  then show ?thesis
  proof cases
    case enter_bottom
    have "analog_channel cfg adc_value i s
            = Inr (?s1\<lparr>midi_out := midi_out ?s1 @ [Stream_note (note_a i) True],
                       g_midi_note_state :=
                         (g_midi_note_state ?s1)(unat (note_a i) := g_midi_velocity cfg),
                       g_exp_analog_prev := (g_exp_analog_prev ?s1)(i := adc_value i)\<rparr>)"
      by (simp add: ch analog_note_enter_bottom [OF assms(1,2) enter_bottom])
    then show ?thesis
      using enter_bottom
      by (intro exI [of _ "?s1\<lparr>midi_out := midi_out ?s1 @ [Stream_note (note_a i) True],
                       g_midi_note_state :=
                         (g_midi_note_state ?s1)(unat (note_a i) := g_midi_velocity cfg),
                       g_exp_analog_prev := (g_exp_analog_prev ?s1)(i := adc_value i)\<rparr>"])
         (auto simp add: emitted_def word_le_nat_alt word_less_nat_alt)
  next
    case leave_bottom
    have "analog_channel cfg adc_value i s
            = Inr (?s1\<lparr>midi_out := midi_out ?s1 @ [Stream_note (note_a i) False],
                       g_midi_note_state := (g_midi_note_state ?s1)(unat (note_a i) := 0),
                       g_exp_analog_prev := (g_exp_analog_prev ?s1)(i := adc_value i)\<rparr>)"
      by (simp add: ch analog_note_leave_bottom [OF assms(1,2) leave_bottom])
    then show ?thesis
      using leave_bottom
      by (intro exI [of _ "?s1\<lparr>midi_out := midi_out ?s1 @ [Stream_note (note_a i) False],
                       g_midi_note_state := (g_midi_note_state ?s1)(unat (note_a i) := 0),
                       g_exp_analog_prev := (g_exp_analog_prev ?s1)(i := adc_value i)\<rparr>"])
         (auto simp add: emitted_def word_le_nat_alt word_less_nat_alt)
  next
    case enter_top
    have "analog_channel cfg adc_value i s
            = Inr (?s1\<lparr>midi_out := midi_out ?s1 @ [Stream_note (note_b i) True],
                       g_midi_note_state :=
                         (g_midi_note_state ?s1)(unat (note_b i) := g_midi_velocity cfg),
                       g_exp_analog_prev := (g_exp_analog_prev ?s1)(i := adc_value i)\<rparr>)"
      by (simp add: ch analog_note_enter_top [OF assms(1,2) enter_top])
    then show ?thesis
      using enter_top
      by (intro exI [of _ "?s1\<lparr>midi_out := midi_out ?s1 @ [Stream_note (note_b i) True],
                       g_midi_note_state :=
                         (g_midi_note_state ?s1)(unat (note_b i) := g_midi_velocity cfg),
                       g_exp_analog_prev := (g_exp_analog_prev ?s1)(i := adc_value i)\<rparr>"])
         (auto simp add: emitted_def word_le_nat_alt word_less_nat_alt)
  next
    case leave_top
    have "analog_channel cfg adc_value i s
            = Inr (?s1\<lparr>midi_out := midi_out ?s1 @ [Stream_note (note_b i) False],
                       g_midi_note_state := (g_midi_note_state ?s1)(unat (note_b i) := 0),
                       g_exp_analog_prev := (g_exp_analog_prev ?s1)(i := adc_value i)\<rparr>)"
      by (simp add: ch analog_note_leave_top [OF assms(1,2) leave_top])
    then show ?thesis
      using leave_top
      by (intro exI [of _ "?s1\<lparr>midi_out := midi_out ?s1 @ [Stream_note (note_b i) False],
                       g_midi_note_state := (g_midi_note_state ?s1)(unat (note_b i) := 0),
                       g_exp_analog_prev := (g_exp_analog_prev ?s1)(i := adc_value i)\<rparr>"])
         (auto simp add: emitted_def word_le_nat_alt word_less_nat_alt)
  next
    case no_crossing
    have "analog_channel cfg adc_value i s
            = Inr (?s1\<lparr>g_exp_analog_prev := (g_exp_analog_prev ?s1)(i := adc_value i)\<rparr>)"
      by (simp add: ch analog_note_no_crossing [OF no_crossing])
    then show ?thesis
      using no_crossing ccs
      by (intro exI [of _ "?s1\<lparr>g_exp_analog_prev := (g_exp_analog_prev ?s1)(i := adc_value i)\<rparr>"])
         (auto simp add: emitted_def word_le_nat_alt word_less_nat_alt)
  qed
qed

section \<open>Concrete runs of a channel\<close>

lemma cc_value_examples:
  "cc_value_of_adc 0 = 0" "cc_value_of_adc 16 = 2" "cc_value_of_adc 32 = 4"
  "cc_value_of_adc 400 = 50" "cc_value_of_adc 512 = 64" "cc_value_of_adc 984 = 123"
  "cc_value_of_adc 992 = 124" "cc_value_of_adc 1008 = 126" "cc_value_of_adc 1023 = 127"
  "cc_value_of_adc 1024 = 128"
  by (simp_all add: cc_value_of_adc_def drop_bit_eq_div)

lemmas channel_run =
  analog_channel_def analog_cc_def analog_note_def note_state_write_def remap_def
  midi_stream_note_def midi_stream_cc_def cc_value_examples all_channels_def
  example_settings_def power_on_state_def note_a_def note_b_def cc_a_def cc_b_def
  fun_upd_idem

theorem C3_dual_zone_counterexample:
  "analog_channel example_settings (all_channels 1023) 0 power_on_state
     = Inr (power_on_state\<lparr>midi_out := [Stream_note 100 False],
              g_exp_analog_prev := (g_exp_analog_prev power_on_state)(0 := 1023)\<rparr>)
   \<and> analog_channel (example_settings\<lparr>g_midi_velocity := 0\<rparr>) (all_channels 0) 0
        (power_on_state\<lparr>g_exp_analog_prev := all_channels 512\<rparr>)
     = Inr (power_on_state\<lparr>midi_out := [Stream_note 100 True],
              g_exp_analog_prev := (all_channels 512)(0 := 0)\<rparr>)"
  by (simp add: channel_run)

theorem C3_dual_zone_witness:
  "\<exists>s'. analog_channel example_settings (all_channels 0) 0
            (power_on_state\<lparr>g_exp_analog_prev := all_channels 512\<rparr>) = Inr s'
       \<and> Stream_note (note_a 0) True
            \<in> set (emitted (power_on_state\<lparr>g_exp_analog_prev := all_channels 512\<rparr>) s')
       \<and> g_midi_note_state s' (unat (note_a 0)) = 127"
proof -
  let ?s = "power_on_state\<lparr>g_exp_analog_prev := all_channels 512\<rparr>"
  have h1: "g_device_mode example_settings = TRAKTOR" by (simp add: example_settings_def)
  have h2: "(0 :: nat) < NUM_ANALOG" by simp
  have h3: "(0 :: u8) = cc_value_of_adc (all_channels 0 0)"
    by (simp add: all_channels_def cc_value_examples)
  have h4: "(64 :: u8) = cc_value_of_adc (g_exp_analog_prev ?s 0)"
    by (simp add: all_channels_def cc_value_examples)
  have h5: "(0 :: u8) \<noteq> 64" by simp
  have vel: "g_midi_velocity example_settings = 127" by (simp add: example_settings_def)
  from C3_dual_zone_notes [of example_settings 0 0 "all_channels 0" 64 ?s, OF h1 h2 h3 h4 h5]
  show ?thesis
    unfolding vel by auto
qed

text \<open>
  The notes of one run of the loop body in Traktor mode, and the 7-bit value the next run
  will compare with.
\<close>

lemma traktor_channel_notes:
  assumes "g_device_mode cfg = TRAKTOR" and "i < NUM_ANALOG"
      and "v = cc_value_of_adc (adc_value i)"
      and "p = cc_value_of_adc (g_exp_analog_prev s i)"
  shows "\<exists>s'. analog_channel cfg adc_value i s = Inr s'
            \<and> cc_value_of_adc (g_exp_analog_prev s' i) = v
            \<and> notes_of (emitted s s') =
                 (if v \<le> 3 \<and> 3 < p then [Stream_note (note_a i) True]
                  else if 3 < v \<and> p \<le> 3 then [Stream_note (note_a i) False]
                  else if 124 \<le> v \<and> p < 124 then [Stream_note (note_b i) True]
                  else if v < 124 \<and> 124 \<le> p then [Stream_note (note_b i) False]
                  else [])"
proof -
  from analog_channel_step [where cfg = cfg and adc_value = adc_value and s = s and i = i,
         OF assms(2) assms(3) assms(4)]
  obtain s' ccs ns where st:
      "analog_channel cfg adc_value i s = Inr s'"
      "midi_out s' = midi_out s @ ccs @ ns"
      "notes_of ccs = []"
      "v = p \<longrightarrow> s' = s \<and> ccs = [] \<and> ns = []"
      "v \<noteq> p \<longrightarrow>
         analog_cc cfg i v s
           = Inr (s\<lparr>midi_out := midi_out s @ ccs, second_cc_value := second_cc_value s'\<rparr>)
       \<and> g_exp_analog_prev s' = (g_exp_analog_prev s)(i := adc_value i)
       \<and> notes_of ns =
           (if g_device_mode cfg = TRAKTOR then
              if v \<le> 3 \<and> 3 < p then [Stream_note (note_a i) True]
              else if 3 < v \<and> p \<le> 3 then [Stream_note (note_a i) False]
              else if 124 \<le> v \<and> p < 124 then [Stream_note (note_b i) True]
              else if v < 124 \<and> 124 \<le> p then [Stream_note (note_b i) False]
              else []
            else [])"
    by blast
  have em: "notes_of (emitted s s') = notes_of ns"
    using st(2,3) by (simp add: emitted_def)
  show ?thesis
  proof (cases "v = p")
    case True
    with st(4) have "s' = s" "ns = []" by simp_all
    with st(1) em True assms(4) show ?thesis
      by (intro exI [of _ s']) (auto simp add: word_le_nat_alt word_less_nat_alt)
  next
    case False
    with st(5) assms(1) have
      "g_exp_analog_prev s' = (g_exp_analog_prev s)(i := adc_value i)"
      "notes_of ns =
           (if v \<le> 3 \<and> 3 < p then [Stream_note (note_a i) True]
            else if 3 < v \<and> p \<le> 3 then [Stream_note (note_a i) False]
            else if 124 \<le> v \<and> p < 124 then [Stream_note (note_b i) True]
            else if v < 124 \<and> 124 \<le> p then [Stream_note (note_b i) False]
            else [])"
      by simp_all
    with st(1) em assms(3) show ?thesis
      by (intro exI [of _ s']) simp
  qed
qed

text \<open>
  C4, as the code has it. In Traktor mode, a channel whose 7-bit value enters the top
  zone from between the zones (previous value above 3 and below 124, new value at least
  124, as from 123 to 126) emits Note-On for note_b and no other note; while the value
  then stays in the top zone (as from 124 to 126) no note is emitted; when it crosses
  back below 124 to a value above 3, Note-Off for note_b is emitted, once, and no note
  is emitted while the value then stays between the zones.
\<close>

theorem C4_top_zone_note_once_per_crossing:
  assumes "g_device_mode cfg = TRAKTOR" and "i < NUM_ANALOG"
      and "3 < cc_value_of_adc (g_exp_analog_prev s i)"
      and "cc_value_of_adc (g_exp_analog_prev s i) < 124"
      and "124 \<le> cc_value_of_adc (adc_enter i)"
      and "124 \<le> cc_value_of_adc (adc_hold i)"
      and "3 < cc_value_of_adc (adc_leave i)" and "cc_value_of_adc (adc_leave i) < 124"
      and "3 < cc_value_of_adc (adc_after i)" and "cc_value_of_adc (adc_after i) < 124"
  shows "\<exists>s1 s2 s3 s4.
           analog_channel cfg adc_enter i s = Inr s1
         \<and> notes_of (emitted s s1) = [Stream_note (note_b i) True]
         \<and> analog_channel cfg adc_hold i s1 = Inr s2
         \<and> notes_of (emitted s1 s2) = []
         \<and> analog_channel cfg adc_leave i s2 = Inr s3
         \<and> notes_of (emitted s2 s3) = [Stream_note (note_b i) False]
         \<and> analog_channel cfg adc_after i s3 = Inr s4
         \<and> notes_of (emitted s3 s4) = []"
proof -
  let ?p = "cc_value_of_adc (g_exp_analog_prev s i)"
  let ?v1 = "cc_value_of_adc (adc_enter i)" and ?v2 = "cc_value_of_adc (adc_hold i)"
  let ?v3 = "cc_value_of_adc (adc_leave i)" and ?v4 = "cc_value_of_adc (adc_after i)"
  have n: "unat ?p > 3" "unat ?p < 124" "unat ?v1 \<ge> 124" "unat ?v2 \<ge> 124"
          "unat ?v3 > 3" "unat ?v3 < 124" "unat ?v4 > 3" "unat ?v4 < 124"
    using assms(3-10) by (simp_all add: word_le_nat_alt word_less_nat_alt)
  obtain s1 where s1: "analog_channel cfg adc_enter i s = Inr s1"
      "cc_value_of_adc (g_exp_analog_prev s1 i) = ?v1"
      "notes_of (emitted s s1) =
         (if ?v1 \<le> 3 \<and> 3 < ?p then [Stream_note (note_a i) True]
          else if 3 < ?v1 \<and> ?p \<le> 3 then [Stream_note (note_a i) False]
          else if 124 \<le> ?v1 \<and> ?p < 124 then [Stream_note (note_b i) True]
          else if ?v1 < 124 \<and> 124 \<le> ?p then [Stream_note (note_b i) False]
          else [])"
    using traktor_channel_notes [OF assms(1,2) refl refl, where adc_value = adc_enter and s = s]
    by blast
  have e1: "notes_of (emitted s s1) = [Stream_note (note_b i) True]"
    using s1(3) n by (simp add: word_le_nat_alt word_less_nat_alt)
  obtain s2 where s2: "analog_channel cfg adc_hold i s1 = Inr s2"
      "cc_value_of_adc (g_exp_analog_prev s2 i) = ?v2"
      "notes_of (emitted s1 s2) =
         (if ?v2 \<le> 3 \<and> 3 < ?v1 then [Stream_note (note_a i) True]
          else if 3 < ?v2 \<and> ?v1 \<le> 3 then [Stream_note (note_a i) False]
          else if 124 \<le> ?v2 \<and> ?v1 < 124 then [Stream_note (note_b i) True]
          else if ?v2 < 124 \<and> 124 \<le> ?v1 then [Stream_note (note_b i) False]
          else [])"
    using traktor_channel_notes [OF assms(1,2) refl refl, where adc_value = adc_hold and s = s1]
    unfolding s1(2) by blast
  have e2: "notes_of (emitted s1 s2) = []"
    using s2(3) n by (simp add: word_le_nat_alt word_less_nat_alt)
  obtain s3 where s3: "analog_channel cfg adc_leave i s2 = Inr s3"
      "cc_value_of_adc (g_exp_analog_prev s3 i) = ?v3"
      "notes_of (emitted s2 s3) =
         (if ?v3 \<le> 3 \<and> 3 < ?v2 then [Stream_note (note_a i) True]
          else if 3 < ?v3 \<and> ?v2 \<le> 3 then [Stream_note (note_a i) False]
          else if 124 \<le> ?v3 \<and> ?v2 < 124 then [Stream_note (note_b i) True]
          else if ?v3 < 124 \<and> 124 \<le> ?v2 then [Stream_note (note_b i) False]
          else [])"
    using traktor_channel_notes [OF assms(1,2) refl refl, where adc_value = adc_leave and s = s2]
    unfolding s2(2) by blast
  have e3: "notes_of (emitted s2 s3) = [Stream_note (note_b i) False]"
    using s3(3) n by (simp add: word_le_nat_alt word_less_nat_alt)
  obtain s4 where s4: "analog_channel cfg adc_after i s3 = Inr s4"
      "notes_of (emitted s3 s4) =
         (if ?v4 \<le> 3 \<and> 3 < ?v3 then [Stream_note (note_a i) True]
          else if 3 < ?v4 \<and> ?v3 \<le> 3 then [Stream_note (note_a i) False]
          else if 124 \<le> ?v4 \<and> ?v3 < 124 then [Stream_note (note_b i) True]
          else if ?v4 < 124 \<and> 124 \<le> ?v3 then [Stream_note (note_b i) False]
          else [])"
    using traktor_channel_notes [OF assms(1,2) refl refl, where adc_value = adc_after and s = s3]
    unfolding s3(2) by blast
  have e4: "notes_of (emitted s3 s4) = []"
    using s4(2) n by (simp add: word_le_nat_alt word_less_nat_alt)
  from s1(1) e1 s2(1) e2 s3(1) e3 s4(1) e4 show ?thesis by blast
qed


theorem C4_top_zone_counterexample:
  "analog_channel example_settings (all_channels 32) 0
     (power_on_state\<lparr>g_exp_analog_prev := all_channels 16\<rparr>)
     = Inr (power_on_state\<lparr>midi_out := [Stream_cc 16 1, Stream_note 100 False],
              g_exp_analog_prev := (all_channels 16)(0 := 32)\<rparr>)
   \<and> analog_channel example_settings (all_channels 1008) 0
        (power_on_state\<lparr>g_exp_analog_prev := all_channels 992\<rparr>)
     = Inr (power_on_state\<lparr>g_exp_analog_prev := (all_channels 992)(0 := 1008)\<rparr>)"
  by (simp add: channel_run)

theorem C4_top_zone_witness:
  "\<exists>s1 s2 s3 s4.
       analog_channel example_settings (all_channels 1008) 0
         (power_on_state\<lparr>g_exp_analog_prev := all_channels 984\<rparr>) = Inr s1
     \<and> notes_of (emitted (power_on_state\<lparr>g_exp_analog_prev := all_channels 984\<rparr>) s1)
         = [Stream_note (note_b 0) True]
     \<and> analog_channel example_settings (all_channels 992) 0 s1 = Inr s2
     \<and> notes_of (emitted s1 s2) = []
     \<and> analog_channel example_settings (all_channels 984) 0 s2 = Inr s3
     \<and> notes_of (emitted s2 s3) = [Stream_note (note_b 0) False]
     \<and> analog_channel example_settings (all_channels 400) 0 s3 = Inr s4
     \<and> notes_of (emitted s3 s4) = []"
proof -
  let ?s = "power_on_state\<lparr>g_exp_analog_prev := all_channels 984\<rparr>"
  have h1: "g_device_mode example_settings = TRAKTOR" by (simp add: example_settings_def)
  have h2: "(0 :: nat) < NUM_ANALOG" by simp
  have h3: "3 < cc_value_of_adc (g_exp_analog_prev ?s 0)"
    and h4: "cc_value_of_adc (g_exp_analog_prev ?s 0) < 124"
    by (simp_all add: all_channels_def cc_value_examples)
  have h5: "124 \<le> cc_value_of_adc (all_channels 1008 0)"
    and h6: "124 \<le> cc_value_of_adc (all_channels 992 0)"
    and h7: "3 < cc_value_of_adc (all_channels 984 0)"
    and h8: "cc_value_of_adc (all_channels 984 0) < 124"
    and h9: "3 < cc_value_of_adc (all_channels 400 0)"
    and h10: "cc_value_of_adc (all_channels 400 0) < 124"
    by (simp_all add: all_channels_def cc_value_examples)
  show ?thesis
    by (rule C4_top_zone_note_once_per_crossing
          [where cfg = example_settings and i = 0 and s = ?s
             and adc_enter = "all_channels 1008" and adc_hold = "all_channels 992"
             and adc_leave = "all_channels 984" and adc_after = "all_channels 400",
           OF h1 h2 h3 h4 h5 h6 h7 h8 h9 h10])
qed

section \<open>The second CC of a channel\<close>

lemma same_result:
  assumes "analog_cc cfg i v s = Inr (s\<lparr>midi_out := midi_out s @ xs, second_cc_value := a\<rparr>)"
      and "analog_cc cfg i v s = Inr (s\<lparr>midi_out := midi_out s @ ys, second_cc_value := b\<rparr>)"
  shows "xs = ys \<and> a = b"
proof -
  let ?A = "s\<lparr>midi_out := midi_out s @ xs, second_cc_value := a\<rparr>"
  let ?B = "s\<lparr>midi_out := midi_out s @ ys, second_cc_value := b\<rparr>"
  from assms have eq: "?A = ?B" by simp
  then have "midi_out ?A = midi_out ?B" by (rule arg_cong)
  moreover from eq have "second_cc_value ?A = second_cc_value ?B" by (rule arg_cong)
  ultimately show ?thesis by simp
qed

lemma cc_b_only:
  assumes "i < NUM_ANALOG"
  shows "cc_values (cc_b i) [Stream_cc (cc_a i) r1] = []"
    and "cc_values (cc_b i) [Stream_cc (cc_a i) r1, Stream_cc (cc_b i) r2] = [r2]"
  using cc_a_neq_cc_b [OF assms] by simp_all







lemma cc_value_more_examples:
  "cc_value_of_adc 80 = 10" "cc_value_of_adc 800 = 100"
  by (simp_all add: cc_value_of_adc_def drop_bit_eq_div)



text \<open>
  \<open>second_cc_value\<close> is one variable for the four channels: after channel 0 sent 63 on
  its second CC, a change of channel 1 below 64 sends the zero on channel 1's second CC,
  and the later drop of channel 0 below 64 sends none.
\<close>

lemma second_cc_value_is_shared:
  "analog_channel example_settings (all_channels 80) 1
     (power_on_state\<lparr>g_exp_analog_prev := (all_channels 16)(0 := 800), second_cc_value := 63\<rparr>)
     = Inr (power_on_state\<lparr>midi_out := [Stream_cc 18 7, Stream_cc 19 0, Stream_note 102 False],
              g_exp_analog_prev := (all_channels 16)(0 := 800, 1 := 80)\<rparr>)
   \<and> analog_channel example_settings (all_channels 400) 0
        (power_on_state\<lparr>g_exp_analog_prev := (all_channels 16)(0 := 800, 1 := 80)\<rparr>)
     = Inr (power_on_state\<lparr>midi_out := [Stream_cc 16 49],
              g_exp_analog_prev := (all_channels 16)(0 := 400, 1 := 80)\<rparr>)"
  by (simp add: channel_run cc_value_more_examples fun_upd_twist)

section \<open>Averaging, inversion and hysteresis\<close>

lemma sint_of_int_small:
  assumes "- 32768 \<le> k" "k < 32768"
  shows "sint (word_of_int k :: u16) = k"
  using assms by (simp add: sint_sbintrunc' signed_take_bit_int_eq_self)

lemma u16_diff_as_int: "(a - p :: u16) = word_of_int (uint a - uint p)"
  by simp

lemma sint_diff_small:
  fixes a p :: u16
  assumes "uint a < 32768" "uint p < 32768"
  shows "sint (a - p) = uint a - uint p"
proof -
  have "0 \<le> uint a" "0 \<le> uint p" by simp_all
  with assms have "- 32768 \<le> uint a - uint p" "uint a - uint p < 32768" by linarith+
  then show ?thesis
    unfolding u16_diff_as_int by (rule sint_of_int_small)
qed

lemma sint_abs_int16:
  fixes a p :: u16
  assumes "uint a < 32768" "uint p < 32768"
  shows "sint (abs_int16 (a - p)) = \<bar>uint a - uint p\<bar>"
  by (simp add: abs_int16_def sint_diff_small [OF assms] sint_diff_small [OF assms(2,1)])

lemma hysteresis_dead_band:
  fixes a p :: u16
  assumes "uint a < 32768" "uint p < 32768"
  shows "hysteresis a p = (if \<bar>uint a - uint p\<bar> < 8 then p else a)"
  by (simp add: hysteresis_def Let_def sint_abs_int16 [OF assms])

lemma unat_cc_value_of_adc:
  assumes "unat x < 2048"
  shows "unat (cc_value_of_adc x) = unat x div 8"
proof -
  have "unat (drop_bit 3 x) = unat x div 8"
    by (simp add: drop_bit_eq_div unat_div)
  moreover have "unat x div 8 < 256" using assms by simp
  ultimately show ?thesis
    by (simp add: cc_value_of_adc_def unat_ucast_u16_u8)
qed

lemma big_change_changes_cc_value:
  fixes a p :: u16
  assumes "unat a < 2048" "unat p < 2048" "8 \<le> \<bar>uint a - uint p\<bar>"
  shows "cc_value_of_adc a \<noteq> cc_value_of_adc p"
proof
  assume "cc_value_of_adc a = cc_value_of_adc p"
  then have "unat (cc_value_of_adc a) = unat (cc_value_of_adc p)" by simp
  then have "unat a div 8 = unat p div 8"
    using assms(1,2) by (simp add: unat_cc_value_of_adc)
  moreover have "uint a = int (unat a)" "uint p = int (unat p)" by simp_all
  ultimately show False using assms(3) by linarith
qed

lemma invert_sliders_channel:
  assumes "i < NUM_ANALOG"
  shows "invert_sliders fw cfg adc_value i =
           (if \<not> g_rotate_enable cfg \<and> slider_inverted fw i
            then 1024 - adc_value i else adc_value i)"
proof -
  from assms consider "i = 0" | "i = 1" | "i = 2" | "i = 3" by linarith
  then show ?thesis
    by cases (simp_all add: invert_sliders_def slider_inverted_def Let_def)
qed


section \<open>The analog loop over the four channels\<close>

lemma controllers_of_other_channel:
  assumes "i < NUM_ANALOG" "j < NUM_ANALOG" "i \<noteq> j"
  shows "cc_a i \<noteq> cc_a j \<and> cc_a i \<noteq> cc_b j"
proof -
  have "unat (cc_a i) \<noteq> unat (cc_a j)" "unat (cc_a i) \<noteq> unat (cc_b j)"
    using assms by (simp_all add: analog_index)
  then show ?thesis by auto
qed

text \<open>
  What one run of the loop body leaves for the other channels and for the channel's own
  first controller \<open>cc_a\<close>.
\<close>

lemma analog_channel_frame:
  assumes "j < NUM_ANALOG"
      and "v = cc_value_of_adc (adc_value j)"
      and "p = cc_value_of_adc (g_exp_analog_prev s j)"
  shows "\<exists>s1 es. analog_channel cfg adc_value j s = Inr s1
           \<and> midi_out s1 = midi_out s @ es
           \<and> g_exp_analog_prev s1
               = (if v = p then g_exp_analog_prev s else (g_exp_analog_prev s)(j := adc_value j))
           \<and> (\<forall>c. c \<noteq> cc_a j \<and> c \<noteq> cc_b j \<longrightarrow> cc_values c es = [])
           \<and> (v = p \<or> v < 3 \<or> 124 < v \<longrightarrow> cc_values (cc_a j) es = [])"
proof -
  from analog_channel_step [where cfg = cfg and adc_value = adc_value and s = s and i = j,
         OF assms(1) assms(2) assms(3)]
  obtain s1 ccs ns where st:
      "analog_channel cfg adc_value j s = Inr s1"
      "midi_out s1 = midi_out s @ ccs @ ns"
      "\<forall>c. cc_values c ns = []"
      "\<forall>c. c \<noteq> cc_a j \<and> c \<noteq> cc_b j \<longrightarrow> cc_values c ccs = []"
      "v = p \<longrightarrow> s1 = s \<and> ccs = [] \<and> ns = []"
      "v \<noteq> p \<longrightarrow>
         analog_cc cfg j v s
           = Inr (s\<lparr>midi_out := midi_out s @ ccs, second_cc_value := second_cc_value s1\<rparr>)
       \<and> g_exp_analog_prev s1 = (g_exp_analog_prev s)(j := adc_value j)"
    by blast
  have prev: "g_exp_analog_prev s1
               = (if v = p then g_exp_analog_prev s else (g_exp_analog_prev s)(j := adc_value j))"
    using st(5,6) by (cases "v = p") simp_all
  have other: "\<forall>c. c \<noteq> cc_a j \<and> c \<noteq> cc_b j \<longrightarrow> cc_values c (ccs @ ns) = []"
    using st(3,4) by simp
  have quiet: "v = p \<or> v < 3 \<or> 124 < v \<longrightarrow> cc_values (cc_a j) (ccs @ ns) = []"
  proof (cases "v = p")
    case True
    with st(5) show ?thesis by simp
  next
    case False
    show ?thesis
    proof
      assume "v = p \<or> v < 3 \<or> 124 < v"
      with False have "v < 3 \<or> 124 < v" by simp
      then have "analog_cc cfg j v s = Inr s" by (rule analog_cc_outside)
      then have "analog_cc cfg j v s
                   = Inr (s\<lparr>midi_out := midi_out s @ [], second_cc_value := second_cc_value s\<rparr>)"
        by simp
      moreover from st(6) False have "analog_cc cfg j v s
           = Inr (s\<lparr>midi_out := midi_out s @ ccs, second_cc_value := second_cc_value s1\<rparr>)"
        by simp
      ultimately have "ccs = []" using same_result by blast
      with st(3) show "cc_values (cc_a j) (ccs @ ns) = []" by simp
    qed
  qed
  from st(1,2) prev other quiet show ?thesis
    by (intro exI [of _ s1] exI [of _ "ccs @ ns"]) simp
qed

lemma analog_loop_effect:
  assumes "\<forall>j \<in> set js. j < NUM_ANALOG" and "distinct js"
  shows "\<exists>s' es. analog_loop cfg adc_value js s = Inr s'
           \<and> midi_out s' = midi_out s @ es
           \<and> (\<forall>i. i \<notin> set js \<longrightarrow> g_exp_analog_prev s' i = g_exp_analog_prev s i)
           \<and> (\<forall>i \<in> set js. g_exp_analog_prev s' i =
                 (if cc_value_of_adc (adc_value i) = cc_value_of_adc (g_exp_analog_prev s i)
                  then g_exp_analog_prev s i else adc_value i))
           \<and> (\<forall>i < NUM_ANALOG.
                 (i \<in> set js \<longrightarrow>
                    cc_value_of_adc (adc_value i) = cc_value_of_adc (g_exp_analog_prev s i)
                    \<or> cc_value_of_adc (adc_value i) < 3 \<or> 124 < cc_value_of_adc (adc_value i))
                 \<longrightarrow> cc_values (cc_a i) es = [])"
  using assms
proof (induction js arbitrary: s)
  case Nil
  show ?case by (intro exI [of _ s] exI [of _ "[]"]) simp
next
  case (Cons j js)
  then have j: "j < NUM_ANALOG" and rest: "\<forall>k \<in> set js. k < NUM_ANALOG"
    and fresh: "j \<notin> set js" and dist: "distinct js"
    by simp_all
  let ?v = "cc_value_of_adc (adc_value j)"
  let ?p = "cc_value_of_adc (g_exp_analog_prev s j)"
  from analog_channel_frame [OF j refl refl, where adc_value = adc_value and s = s and cfg = cfg]
  obtain s1 e1 where st:
      "analog_channel cfg adc_value j s = Inr s1"
      "midi_out s1 = midi_out s @ e1"
      "g_exp_analog_prev s1
         = (if ?v = ?p then g_exp_analog_prev s else (g_exp_analog_prev s)(j := adc_value j))"
      "\<forall>c. c \<noteq> cc_a j \<and> c \<noteq> cc_b j \<longrightarrow> cc_values c e1 = []"
      "?v = ?p \<or> ?v < 3 \<or> 124 < ?v \<longrightarrow> cc_values (cc_a j) e1 = []"
    by blast
  from Cons.IH [OF rest dist, of s1]
  obtain s' e2 where ih:
      "analog_loop cfg adc_value js s1 = Inr s'"
      "midi_out s' = midi_out s1 @ e2"
      "\<forall>i. i \<notin> set js \<longrightarrow> g_exp_analog_prev s' i = g_exp_analog_prev s1 i"
      "\<forall>i \<in> set js. g_exp_analog_prev s' i =
             (if cc_value_of_adc (adc_value i) = cc_value_of_adc (g_exp_analog_prev s1 i)
              then g_exp_analog_prev s1 i else adc_value i)"
      "\<forall>i < NUM_ANALOG.
             (i \<in> set js \<longrightarrow>
                cc_value_of_adc (adc_value i) = cc_value_of_adc (g_exp_analog_prev s1 i)
                \<or> cc_value_of_adc (adc_value i) < 3 \<or> 124 < cc_value_of_adc (adc_value i))
             \<longrightarrow> cc_values (cc_a i) e2 = []"
    by blast
  have keep: "\<And>i. i \<noteq> j \<Longrightarrow> g_exp_analog_prev s1 i = g_exp_analog_prev s i"
    using st(3) by simp
  have own: "g_exp_analog_prev s1 j = (if ?v = ?p then g_exp_analog_prev s j else adc_value j)"
    using st(3) by simp
  have run: "analog_loop cfg adc_value (j # js) s = Inr s'"
    by (simp add: st(1) ih(1))
  have out: "midi_out s' = midi_out s @ (e1 @ e2)"
    by (simp add: st(2) ih(2))
  have outside: "\<forall>i. i \<notin> set (j # js) \<longrightarrow> g_exp_analog_prev s' i = g_exp_analog_prev s i"
    using ih(3) keep by simp
  have inside: "\<forall>i \<in> set (j # js). g_exp_analog_prev s' i =
                 (if cc_value_of_adc (adc_value i) = cc_value_of_adc (g_exp_analog_prev s i)
                  then g_exp_analog_prev s i else adc_value i)"
  proof
    fix i assume "i \<in> set (j # js)"
    then consider "i = j" | "i \<in> set js" "i \<noteq> j" using fresh by auto
    then show "g_exp_analog_prev s' i =
                 (if cc_value_of_adc (adc_value i) = cc_value_of_adc (g_exp_analog_prev s i)
                  then g_exp_analog_prev s i else adc_value i)"
    proof cases
      case 1
      with ih(3) fresh own show ?thesis by simp
    next
      case 2
      with ih(4) keep show ?thesis by simp
    qed
  qed
  have silent: "\<forall>i < NUM_ANALOG.
                 (i \<in> set (j # js) \<longrightarrow>
                    cc_value_of_adc (adc_value i) = cc_value_of_adc (g_exp_analog_prev s i)
                    \<or> cc_value_of_adc (adc_value i) < 3 \<or> 124 < cc_value_of_adc (adc_value i))
                 \<longrightarrow> cc_values (cc_a i) (e1 @ e2) = []"
  proof (intro allI impI)
    fix i
    assume i: "i < NUM_ANALOG"
      and q: "i \<in> set (j # js) \<longrightarrow>
                cc_value_of_adc (adc_value i) = cc_value_of_adc (g_exp_analog_prev s i)
                \<or> cc_value_of_adc (adc_value i) < 3 \<or> 124 < cc_value_of_adc (adc_value i)"
    show "cc_values (cc_a i) (e1 @ e2) = []"
    proof (cases "i = j")
      case True
      with q have "?v = ?p \<or> ?v < 3 \<or> 124 < ?v" by simp
      with st(5) have "cc_values (cc_a j) e1 = []" by simp
      moreover have "cc_values (cc_a j) e2 = []" using ih(5) j fresh by simp
      ultimately show ?thesis using True by simp
    next
      case False
      then have "cc_values (cc_a i) e1 = []"
        using st(4) controllers_of_other_channel [OF i j] by simp
      moreover have "cc_values (cc_a i) e2 = []"
        using ih(5) i q False keep by simp
      ultimately show ?thesis by simp
    qed
  qed
  from run out outside inside silent show ?case
    by (intro exI [of _ s'] exI [of _ "e1 @ e2"]) simp
qed


lemma analog_task_effect:
  "\<exists>s' es. analog_task fw cfg inp s = Inr s'
      \<and> midi_out s' = midi_out s @ es
      \<and> (\<forall>i < NUM_ANALOG. g_exp_analog_prev s' i =
            (if cc_value_of_adc (adc_filtered fw cfg inp s i)
                  = cc_value_of_adc (g_exp_analog_prev s i)
             then g_exp_analog_prev s i else adc_filtered fw cfg inp s i))
      \<and> (\<forall>i < NUM_ANALOG.
            cc_value_of_adc (adc_filtered fw cfg inp s i) = cc_value_of_adc (g_exp_analog_prev s i)
            \<or> cc_value_of_adc (adc_filtered fw cfg inp s i) < 3
            \<or> 124 < cc_value_of_adc (adc_filtered fw cfg inp s i)
            \<longrightarrow> cc_values (cc_a i) es = [])"
proof -
  let ?adc = "adc_filtered fw cfg inp s"
  have a: "\<forall>j \<in> set [0..<NUM_ANALOG]. j < NUM_ANALOG" by simp
  have d: "distinct [0..<NUM_ANALOG]" by simp
  from analog_loop_effect [OF a d, of cfg ?adc s]
  obtain s' es where loop:
      "analog_loop cfg ?adc [0..<NUM_ANALOG] s = Inr s'"
      "midi_out s' = midi_out s @ es"
      "\<forall>i \<in> set [0..<NUM_ANALOG]. g_exp_analog_prev s' i =
             (if cc_value_of_adc (?adc i) = cc_value_of_adc (g_exp_analog_prev s i)
              then g_exp_analog_prev s i else ?adc i)"
      "\<forall>i < NUM_ANALOG.
             (i \<in> set [0..<NUM_ANALOG] \<longrightarrow>
                cc_value_of_adc (?adc i) = cc_value_of_adc (g_exp_analog_prev s i)
                \<or> cc_value_of_adc (?adc i) < 3 \<or> 124 < cc_value_of_adc (?adc i))
             \<longrightarrow> cc_values (cc_a i) es = []"
    by (elim exE conjE)
  have run: "analog_task fw cfg inp s = Inr s'"
    unfolding analog_task_def by (rule loop(1))
  have stored: "\<forall>i < NUM_ANALOG. g_exp_analog_prev s' i =
            (if cc_value_of_adc (?adc i) = cc_value_of_adc (g_exp_analog_prev s i)
             then g_exp_analog_prev s i else ?adc i)"
  proof (intro allI impI)
    fix i :: nat assume "i < NUM_ANALOG"
    then have "i \<in> set [0..<NUM_ANALOG]" by simp
    with loop(3) show "g_exp_analog_prev s' i =
            (if cc_value_of_adc (?adc i) = cc_value_of_adc (g_exp_analog_prev s i)
             then g_exp_analog_prev s i else ?adc i)"
      by (rule bspec)
  qed
  have silent: "\<forall>i < NUM_ANALOG.
            cc_value_of_adc (?adc i) = cc_value_of_adc (g_exp_analog_prev s i)
            \<or> cc_value_of_adc (?adc i) < 3 \<or> 124 < cc_value_of_adc (?adc i)
            \<longrightarrow> cc_values (cc_a i) es = []"
  proof (intro allI impI)
    fix i :: nat
    assume i: "i < NUM_ANALOG"
      and q: "cc_value_of_adc (?adc i) = cc_value_of_adc (g_exp_analog_prev s i)
              \<or> cc_value_of_adc (?adc i) < 3 \<or> 124 < cc_value_of_adc (?adc i)"
    from loop(4) have "i < NUM_ANALOG \<longrightarrow>
        (i \<in> set [0..<NUM_ANALOG] \<longrightarrow>
          cc_value_of_adc (?adc i) = cc_value_of_adc (g_exp_analog_prev s i)
          \<or> cc_value_of_adc (?adc i) < 3 \<or> 124 < cc_value_of_adc (?adc i))
        \<longrightarrow> cc_values (cc_a i) es = []"
      by (rule spec)
    then have step: "(i \<in> set [0..<NUM_ANALOG] \<longrightarrow>
          cc_value_of_adc (?adc i) = cc_value_of_adc (g_exp_analog_prev s i)
          \<or> cc_value_of_adc (?adc i) < 3 \<or> 124 < cc_value_of_adc (?adc i))
        \<longrightarrow> cc_values (cc_a i) es = []"
      using i by (rule mp)
    have "i \<in> set [0..<NUM_ANALOG] \<longrightarrow>
          cc_value_of_adc (?adc i) = cc_value_of_adc (g_exp_analog_prev s i)
          \<or> cc_value_of_adc (?adc i) < 3 \<or> 124 < cc_value_of_adc (?adc i)"
      using q by (intro impI)
    with step show "cc_values (cc_a i) es = []" by (rule mp)
  qed
  show ?thesis
    by (rule exI [of _ s'], rule exI [of _ es]) (intro conjI run loop(2) stored silent)
qed

text \<open>
  C7. For each analog channel, with \<open>p\<close> the stored previous value and \<open>a\<close> the new
  10-bit value of the channel as it enters the dead-band (the average of the four reads,
  inverted where the build inverts the slider): if \<open>|a - p| < 8\<close> the value handed to
  the emission loop is \<open>p\<close> and the stored value is still \<open>p\<close> after the analog stage;
  if \<open>|a - p| \<ge> 8\<close> the value handed on is \<open>a\<close> and the stored value is \<open>a\<close> after the
  stage.
\<close>

theorem C7_hysteresis_dead_band:
  assumes "i < NUM_ANALOG"
      and "a = invert_sliders fw cfg (adc_read_average inp) i"
      and "p = g_exp_analog_prev s i"
      and "unat a \<le> 1024" and "unat p \<le> 1024"
  shows "\<exists>s'. analog_task fw cfg inp s = Inr s'
     \<and> (\<bar>uint a - uint p\<bar> < 8 \<longrightarrow>
           adc_filtered fw cfg inp s i = p \<and> g_exp_analog_prev s' i = p)
     \<and> (8 \<le> \<bar>uint a - uint p\<bar> \<longrightarrow>
           adc_filtered fw cfg inp s i = a \<and> g_exp_analog_prev s' i = a)"
proof -
  have ua: "uint a = int (unat a)" and up: "uint p = int (unat p)" by simp_all
  have small: "uint a < 32768" "uint p < 32768" using assms(4,5) ua up by linarith+
  have filt: "adc_filtered fw cfg inp s i = (if \<bar>uint a - uint p\<bar> < 8 then p else a)"
    unfolding adc_filtered_def assms(2) [symmetric] assms(3) [symmetric]
    by (rule hysteresis_dead_band [OF small])
  from analog_task_effect [of fw cfg inp s]
  obtain s' where run: "analog_task fw cfg inp s = Inr s'"
    and stored: "g_exp_analog_prev s' i =
            (if cc_value_of_adc (adc_filtered fw cfg inp s i)
                  = cc_value_of_adc (g_exp_analog_prev s i)
             then g_exp_analog_prev s i else adc_filtered fw cfg inp s i)"
    using assms(1) by blast
  show ?thesis
  proof (cases "\<bar>uint a - uint p\<bar> < 8")
    case True
    with filt have "adc_filtered fw cfg inp s i = p" by simp
    with stored assms(3) True run show ?thesis
      by (intro exI [of _ s']) simp
  next
    case False
    with filt have f: "adc_filtered fw cfg inp s i = a" by simp
    have "cc_value_of_adc a \<noteq> cc_value_of_adc p"
      using assms(4,5) False by (intro big_change_changes_cc_value) simp_all
    with stored f assms(3) have "g_exp_analog_prev s' i = a" by simp
    with f False run show ?thesis
      by (intro exI [of _ s']) simp
  qed
qed


lemma steady_average:
  "adc_read_average (quiet_inputs\<lparr>exp_adc_read := steady_reads v\<rparr>) i = drop_bit 2 (v + v + v + v)"
  by (simp add: adc_read_average_def steady_reads_def upt_rec)

theorem C7_hysteresis_witness:
  "(\<exists>s'. analog_task example_firmware example_settings
            (quiet_inputs\<lparr>exp_adc_read := steady_reads 400\<rparr>) power_on_state = Inr s'
        \<and> adc_filtered example_firmware example_settings
            (quiet_inputs\<lparr>exp_adc_read := steady_reads 400\<rparr>) power_on_state 0 = 400
        \<and> g_exp_analog_prev s' 0 = 400)
   \<and> (\<exists>s'. analog_task example_firmware example_settings
            (quiet_inputs\<lparr>exp_adc_read := steady_reads 5\<rparr>) power_on_state = Inr s'
        \<and> adc_filtered example_firmware example_settings
            (quiet_inputs\<lparr>exp_adc_read := steady_reads 5\<rparr>) power_on_state 0 = 0
        \<and> g_exp_analog_prev s' 0 = 0)"
proof -
  have i: "(0 :: nat) < NUM_ANALOG" by simp
  have p: "(0 :: u16) = g_exp_analog_prev power_on_state 0" by (simp add: power_on_state_def)
  have a400: "(400 :: u16) = invert_sliders example_firmware example_settings
                 (adc_read_average (quiet_inputs\<lparr>exp_adc_read := steady_reads 400\<rparr>)) 0"
    by (simp add: invert_sliders_channel slider_inverted_def example_firmware_def
          steady_average drop_bit_eq_div)
  have a5: "(5 :: u16) = invert_sliders example_firmware example_settings
                 (adc_read_average (quiet_inputs\<lparr>exp_adc_read := steady_reads 5\<rparr>)) 0"
    by (simp add: invert_sliders_channel slider_inverted_def example_firmware_def
          steady_average drop_bit_eq_div)
  have b: "unat (400 :: u16) \<le> 1024" "unat (5 :: u16) \<le> 1024" "unat (0 :: u16) \<le> 1024"
    by simp_all
  from C7_hysteresis_dead_band [OF i a400 p b(1) b(3)]
       C7_hysteresis_dead_band [OF i a5 p b(2) b(3)]
  show ?thesis by simp
qed

text \<open>
  C10. With the slider of a channel compiled as inverted and rotation disabled, the
  inverted value of the channel is 1024 minus its average, whatever the average is, and
  so never 1023 minus it. For an average of 0 it is 1024, whose 7-bit value is 128,
  above the 7-bit maximum 127 and above the top of the range (124), and the analog
  stage sends nothing on the channel's first controller in that tick, whatever value was
  stored before.
\<close>

theorem C10_inverted_zero_suppresses_primary_cc:
  assumes "i < NUM_ANALOG" and "slider_inverted fw i" and "\<not> g_rotate_enable cfg"
  shows "(\<forall>adc_value. invert_sliders fw cfg adc_value i = 1024 - adc_value i)
       \<and> invert_sliders fw cfg (adc_read_average inp) i \<noteq> 1023 - adc_read_average inp i
       \<and> (adc_read_average inp i = 0 \<longrightarrow>
             invert_sliders fw cfg (adc_read_average inp) i = 1024
           \<and> cc_value_of_adc (invert_sliders fw cfg (adc_read_average inp) i) = 128
           \<and> (127 :: u8) < cc_value_of_adc (invert_sliders fw cfg (adc_read_average inp) i)
           \<and> 124 < cc_value_of_adc (invert_sliders fw cfg (adc_read_average inp) i)
           \<and> (\<exists>s'. analog_task fw cfg inp s = Inr s'
                  \<and> cc_values (cc_a i) (emitted s s') = []))"
proof (intro conjI allI impI)
  fix adc_value :: "nat \<Rightarrow> u16"
  show "invert_sliders fw cfg adc_value i = 1024 - adc_value i"
    using assms(2,3) by (simp add: invert_sliders_channel [OF assms(1)])
next
  have "invert_sliders fw cfg (adc_read_average inp) i = 1024 - adc_read_average inp i"
    using assms(2,3) by (simp add: invert_sliders_channel [OF assms(1)])
  then show "invert_sliders fw cfg (adc_read_average inp) i \<noteq> 1023 - adc_read_average inp i"
    by simp
next
  assume zero: "adc_read_average inp i = 0"
  have inv0: "invert_sliders fw cfg (adc_read_average inp) i = 1024"
    using assms(2,3) zero by (simp add: invert_sliders_channel [OF assms(1)])
  show "invert_sliders fw cfg (adc_read_average inp) i = 1024" by (rule inv0)
  show "cc_value_of_adc (invert_sliders fw cfg (adc_read_average inp) i) = 128"
    by (simp add: inv0 cc_value_examples)
  show "(127 :: u8) < cc_value_of_adc (invert_sliders fw cfg (adc_read_average inp) i)"
    by (simp add: inv0 cc_value_examples)
  show "124 < cc_value_of_adc (invert_sliders fw cfg (adc_read_average inp) i)"
    by (simp add: inv0 cc_value_examples)
  let ?f = "adc_filtered fw cfg inp s i"
  have "?f = g_exp_analog_prev s i \<or> ?f = 1024"
    by (simp add: adc_filtered_def inv0 hysteresis_def Let_def)
  then have quiet: "cc_value_of_adc ?f = cc_value_of_adc (g_exp_analog_prev s i)
                    \<or> cc_value_of_adc ?f < 3 \<or> 124 < cc_value_of_adc ?f"
    by (auto simp add: cc_value_examples)
  from analog_task_effect [of fw cfg inp s]
  obtain s' es where run: "analog_task fw cfg inp s = Inr s'"
    and out: "midi_out s' = midi_out s @ es"
    and silent: "\<forall>i < NUM_ANALOG.
            cc_value_of_adc (adc_filtered fw cfg inp s i) = cc_value_of_adc (g_exp_analog_prev s i)
            \<or> cc_value_of_adc (adc_filtered fw cfg inp s i) < 3
            \<or> 124 < cc_value_of_adc (adc_filtered fw cfg inp s i)
            \<longrightarrow> cc_values (cc_a i) es = []"
    by (elim exE conjE)
  from silent assms(1) quiet have "cc_values (cc_a i) es = []" by blast
  with out have "cc_values (cc_a i) (emitted s s') = []" by (simp add: emitted_def)
  with run show "\<exists>s'. analog_task fw cfg inp s = Inr s'
              \<and> cc_values (cc_a i) (emitted s s') = []"
    by (intro exI [of _ s']) simp
qed

theorem C10_inverted_zero_witness:
  "invert_sliders (example_firmware\<lparr>INVERT_SLIDER_1 := True\<rparr>) example_settings
     (adc_read_average (quiet_inputs\<lparr>exp_adc_read := steady_reads 500\<rparr>)) 0 = 524
   \<and> invert_sliders (example_firmware\<lparr>INVERT_SLIDER_1 := True\<rparr>) example_settings
       (adc_read_average quiet_inputs) 0 = 1024
   \<and> (\<exists>s'. analog_task (example_firmware\<lparr>INVERT_SLIDER_1 := True\<rparr>) example_settings
              quiet_inputs power_on_state = Inr s'
          \<and> cc_values (cc_a 0) (emitted power_on_state s') = [])"
proof -
  let ?fw = "example_firmware\<lparr>INVERT_SLIDER_1 := True\<rparr>"
  have i: "(0 :: nat) < NUM_ANALOG" by simp
  have f: "slider_inverted ?fw 0" by (simp add: slider_inverted_def)
  have r: "\<not> g_rotate_enable example_settings" by (simp add: example_settings_def)
  have z: "adc_read_average quiet_inputs 0 = 0"
    by (simp add: adc_read_average_def quiet_inputs_def upt_rec)
  have a500: "adc_read_average (quiet_inputs\<lparr>exp_adc_read := steady_reads 500\<rparr>) 0 = 500"
    by (simp add: steady_average drop_bit_eq_div)
  note c10 = C10_inverted_zero_suppresses_primary_cc
               [where fw = ?fw and cfg = example_settings and i = 0
                  and inp = quiet_inputs and s = power_on_state, OF i f r]
  from c10 have "invert_sliders ?fw example_settings
                   (adc_read_average (quiet_inputs\<lparr>exp_adc_read := steady_reads 500\<rparr>)) 0
                 = 1024 - adc_read_average (quiet_inputs\<lparr>exp_adc_read := steady_reads 500\<rparr>) 0"
    by blast
  then have general: "invert_sliders ?fw example_settings
                   (adc_read_average (quiet_inputs\<lparr>exp_adc_read := steady_reads 500\<rparr>)) 0 = 524"
    by (simp add: a500)
  from c10 z have "invert_sliders ?fw example_settings (adc_read_average quiet_inputs) 0 = 1024
     \<and> (\<exists>s'. analog_task ?fw example_settings quiet_inputs power_on_state = Inr s'
            \<and> cc_values (cc_a 0) (emitted power_on_state s') = [])"
    by blast
  with general show ?thesis by simp
qed

section \<open>The range of the analog values\<close>

text \<open>
  With 10-bit reads the average is a 10-bit value, the inverted value is at most 1024,
  and the analog stage keeps every stored value at most 1024.
\<close>

lemma adc_read_average_ten_bit:
  assumes "\<forall>k < 4. unat (exp_adc_read inp k i) < 1024"
  shows "unat (adc_read_average inp i) < 1024"
proof -
  let ?r = "\<lambda>k. exp_adc_read inp k i"
  have r: "unat (?r 0) < 1024" "unat (?r 1) < 1024" "unat (?r 2) < 1024" "unat (?r 3) < 1024"
    using assms by simp_all
  have s1: "unat (?r 0 + ?r 1) = unat (?r 0) + unat (?r 1)"
    using r by (intro unat_add_lem [THEN iffD1]) simp
  have s2: "unat (?r 0 + ?r 1 + ?r 2) = unat (?r 0) + unat (?r 1) + unat (?r 2)"
    using r s1 by (simp add: unat_add_lem [THEN iffD1])
  have s3: "unat (?r 0 + ?r 1 + ?r 2 + ?r 3)
              = unat (?r 0) + unat (?r 1) + unat (?r 2) + unat (?r 3)"
    using r s2 by (simp add: unat_add_lem [THEN iffD1])
  have "adc_read_average inp i = drop_bit 2 (?r 0 + ?r 1 + ?r 2 + ?r 3)"
    by (simp add: adc_read_average_def upt_rec numeral_2_eq_2 numeral_3_eq_3)
  then have "unat (adc_read_average inp i)
               = (unat (?r 0) + unat (?r 1) + unat (?r 2) + unat (?r 3)) div 4"
    using s3 by (simp add: drop_bit_eq_div unat_div)
  with r show ?thesis by simp
qed

lemma invert_sliders_range:
  assumes "i < NUM_ANALOG" "unat (adc_value i) < 1024"
  shows "unat (invert_sliders fw cfg adc_value i) \<le> 1024"
proof -
  have "adc_value i \<le> 1024" using assms(2) by (simp add: word_le_nat_alt)
  then have "unat (1024 - adc_value i) = 1024 - unat (adc_value i)"
    by (simp add: unat_sub)
  then show ?thesis
    using assms by (simp add: invert_sliders_channel)
qed

lemma hysteresis_either: "hysteresis a p = a \<or> hysteresis a p = p"
  by (simp add: hysteresis_def Let_def)

lemma analog_task_keeps_range:
  assumes "\<forall>i < NUM_ANALOG. \<forall>k < 4. unat (exp_adc_read inp k i) < 1024"
      and "\<forall>i < NUM_ANALOG. unat (g_exp_analog_prev s i) \<le> 1024"
      and "analog_task fw cfg inp s = Inr s'"
      and "i < NUM_ANALOG"
  shows "unat (g_exp_analog_prev s' i) \<le> 1024"
proof -
  have a: "unat (invert_sliders fw cfg (adc_read_average inp) i) \<le> 1024"
    using assms(1,4) by (intro invert_sliders_range adc_read_average_ten_bit) simp_all
  have p: "unat (g_exp_analog_prev s i) \<le> 1024" using assms(2,4) by simp
  have f: "unat (adc_filtered fw cfg inp s i) \<le> 1024"
    using a p hysteresis_either
      [of "invert_sliders fw cfg (adc_read_average inp) i" "g_exp_analog_prev s i"]
    by (auto simp add: adc_filtered_def)
  from analog_task_effect [of fw cfg inp s] assms(3)
  have "\<forall>i < NUM_ANALOG. g_exp_analog_prev s' i =
            (if cc_value_of_adc (adc_filtered fw cfg inp s i)
                  = cc_value_of_adc (g_exp_analog_prev s i)
             then g_exp_analog_prev s i else adc_filtered fw cfg inp s i)"
    by auto
  with assms(4) have "g_exp_analog_prev s' i = g_exp_analog_prev s i
                      \<or> g_exp_analog_prev s' i = adc_filtered fw cfg inp s i"
    by auto
  with p f show ?thesis by auto
qed

section \<open>The selected bank stays below 4\<close>

lemma bank_select_keeps_range:
  assumes "g_key_bank_selected s < 4"
  shows "g_key_bank_selected (bank_select bv s) < 4"
proof (cases "bank_keydown bv AND 0x000f = 0")
  case True
  with assms show ?thesis by (simp add: bank_select_def)
next
  case False
  then have "unat (bank_scan (bank_keydown bv) 1 0) < 4"
    using bank_scan_is_lowest_bit by blast
  then have "bank_scan (bank_keydown bv) 1 0 < 4" by (simp add: word_less_nat_alt)
  with False show ?thesis
    by (simp add: bank_select_def Let_def midi_stream_note_def)
qed

section \<open>The receive loop handles the packets in order\<close>

lemma receive_loop_append:
  "receive_loop cfg (ps @ qs) s =
     (case receive_loop cfg ps s of Inl f \<Rightarrow> Inl f | Inr s' \<Rightarrow> receive_loop cfg qs s')"
  by (induction ps arbitrary: s) (simp_all split: sum.splits)

section \<open>The bank block within the key stage\<close>

text \<open>
  The key stage runs the bank block first, on the state the Fourbanks setup leaves; the
  release block and the key loop only append to the stream and keep the selected bank.
\<close>

lemma key_event_appends:
  "\<exists>es. midi_out (key_event fw cfg bv i s) = midi_out s @ es
        \<and> g_key_bank_selected (key_event fw cfg bv i s) = g_key_bank_selected s"
  by (simp add: key_event_def Let_def midi_stream_note_def midi_stream_raw_cc_def)

lemma key_loop_appends:
  "\<exists>es. midi_out (fold (key_event fw cfg bv) ks s) = midi_out s @ es
        \<and> g_key_bank_selected (fold (key_event fw cfg bv) ks s) = g_key_bank_selected s"
proof (induction ks arbitrary: s)
  case Nil
  show ?case by simp
next
  case (Cons k ks)
  obtain e1 where e1: "midi_out (key_event fw cfg bv k s) = midi_out s @ e1"
      "g_key_bank_selected (key_event fw cfg bv k s) = g_key_bank_selected s"
    using key_event_appends [of fw cfg bv k s] by blast
  obtain e2 where e2:
      "midi_out (fold (key_event fw cfg bv) ks (key_event fw cfg bv k s))
         = midi_out (key_event fw cfg bv k s) @ e2"
      "g_key_bank_selected (fold (key_event fw cfg bv) ks (key_event fw cfg bv k s))
         = g_key_bank_selected (key_event fw cfg bv k s)"
    using Cons.IH [of "key_event fw cfg bv k s"] by blast
  show ?case
    by (intro exI [of _ "e1 @ e2"]) (simp add: e1 e2)
qed

lemma bank_release_appends:
  "\<exists>es. midi_out (bank_release bv s) = midi_out s @ es
        \<and> g_key_bank_selected (bank_release bv s) = g_key_bank_selected s"
  by (simp add: bank_release_def Let_def midi_stream_note_def)

lemma key_task_starts_with_bank_select:
  "\<exists>es. midi_out (key_task fw cfg inp s)
          = midi_out (bank_select (fourbanks_vars cfg inp) (fourbanks_setup cfg s)) @ es
        \<and> g_key_bank_selected (key_task fw cfg inp s)
          = g_key_bank_selected (bank_select (fourbanks_vars cfg inp) (fourbanks_setup cfg s))"
proof -
  let ?bv = "fourbanks_vars cfg inp"
  let ?s2 = "bank_select ?bv (fourbanks_setup cfg s)"
  obtain e1 where e1: "midi_out (bank_release ?bv ?s2) = midi_out ?s2 @ e1"
      "g_key_bank_selected (bank_release ?bv ?s2) = g_key_bank_selected ?s2"
    using bank_release_appends [of ?bv ?s2] by blast
  obtain e2 where e2:
      "midi_out (fold (key_event fw cfg ?bv) [0..<unat (keycount ?bv)] (bank_release ?bv ?s2))
         = midi_out (bank_release ?bv ?s2) @ e2"
      "g_key_bank_selected
         (fold (key_event fw cfg ?bv) [0..<unat (keycount ?bv)] (bank_release ?bv ?s2))
         = g_key_bank_selected (bank_release ?bv ?s2)"
    using key_loop_appends [of fw cfg ?bv "[0..<unat (keycount ?bv)]" "bank_release ?bv ?s2"]
    by blast
  show ?thesis
    by (intro exI [of _ "e1 @ e2"]) (simp add: key_task_def Let_def e1 e2)
qed

lemma fourbanks_setup_banked:
  "g_key_fourbanks_mode cfg \<noteq> FOURBANKS_OFF \<Longrightarrow> fourbanks_setup cfg s = s"
  by (simp add: fourbanks_setup_def)

lemma no_bank_keys_when_off:
  "g_key_fourbanks_mode cfg = FOURBANKS_OFF \<Longrightarrow> bank_keydown (fourbanks_vars cfg inp) = 0"
  by (simp add: fourbanks_vars_def)

end
